theory Spec2Isabelle
  imports Complex_Main "HOL-Library.FSet" "HOL-Library.AList"
begin

section \<open>Data model\<close>

text \<open>
  A page is a file name.  A Python \<^verbatim>\<open>dict\<close> keeps its keys in insertion order and both
  estimators iterate over it, so a dictionary is an association list; a Python \<^verbatim>\<open>set\<close>
  of links is a finite set.

  The arithmetic is modelled twice.  In the first model a Python float is a real number
  and every operation is exact: its statements are about the exact arithmetic of the
  program.  In the second model, whose functions carry the suffix \<open>_fl\<close>, a float is an
  IEEE 754 double and every operation rounds as Python does.  Each statement names the
  functions, and so the arithmetic, it is about.
\<close>

type_synonym page = string
type_synonym 'v dict = "(page \<times> 'v) list"
type_synonym corpus = "page fset dict"

datatype py_error = KeyError | IndexError | ZeroDivisionError | ValueError

definition dict_keys :: "'v dict \<Rightarrow> page list" where
  "dict_keys d = map fst d"

definition dict_values :: "'v dict \<Rightarrow> 'v list" where
  "dict_values d = map snd d"

text \<open>The keys of a Python dictionary are pairwise different.\<close>

definition is_dict :: "'v dict \<Rightarrow> bool" where
  "is_dict d \<longleftrightarrow> distinct (dict_keys d)"

text \<open>\<^verbatim>\<open>d[k]\<close> raises \<^verbatim>\<open>KeyError\<close> on a missing key.\<close>

definition getitem :: "'v dict \<Rightarrow> page \<Rightarrow> py_error + 'v" where
  "getitem d k = (case map_of d k of None \<Rightarrow> Inl KeyError | Some v \<Rightarrow> Inr v)"

text \<open>
  \<^verbatim>\<open>d[k] = v\<close> overwrites the value of an existing key in place and appends a new key
  at the end.
\<close>

definition setitem :: "'v dict \<Rightarrow> page \<Rightarrow> 'v \<Rightarrow> 'v dict" where
  "setitem d k v = AList.update k v d"

text \<open>
  The invariants that \<^verbatim>\<open>crawl\<close> establishes: every link target is a page of the
  corpus, and no page links to itself.
\<close>

definition graph_inv :: "corpus \<Rightarrow> bool" where
  "graph_inv corpus \<longleftrightarrow>
     is_dict corpus \<and>
     list_all (\<lambda>(p, links). fset links \<subseteq> set (dict_keys corpus) \<and> p |\<notin>| links) corpus"

section \<open>Transition model\<close>

text \<open>
  \<^verbatim>\<open>transition_model(corpus, page, damping_factor)\<close>.  The lookup \<^verbatim>\<open>corpus[page]\<close> comes
  before any division; once it has succeeded the corpus has a key, so \<^verbatim>\<open>N\<close> is not
  zero, and \<^verbatim>\<open>len(linked_pages)\<close> is a divisor only for a page in \<^verbatim>\<open>linked_pages\<close>.
\<close>

definition transition_model :: "corpus \<Rightarrow> page \<Rightarrow> real \<Rightarrow> py_error + real dict" where
  "transition_model corpus page damping_factor =
     (let N = length corpus;
          all_pages = dict_keys corpus
      in case getitem corpus page of
           Inl e \<Rightarrow> Inl e
         | Inr linked_pages \<Rightarrow>
             if linked_pages \<noteq> {||} then
               Inr (map (\<lambda>p.
                     let prob = (1 - damping_factor) / real N
                     in (p, if p |\<in>| linked_pages
                            then prob + damping_factor / real (fcard linked_pages)
                            else prob)) all_pages)
             else
               Inr (map (\<lambda>p. (p, 1 / real N)) all_pages))"

section \<open>The random source\<close>

text \<open>
  The program draws from Python's \<^verbatim>\<open>random\<close> module.  The draws are inputs of the
  model: \<^verbatim>\<open>random.choice(seq)\<close> raises \<^verbatim>\<open>IndexError\<close> on an empty sequence and
  otherwise returns \<^verbatim>\<open>seq[i]\<close> for the index \<open>i\<close> that \<^verbatim>\<open>_randbelow(len(seq))\<close>
  delivers (so \<open>i < length seq\<close>).
\<close>

definition choice :: "'a list \<Rightarrow> nat \<Rightarrow> py_error + 'a" where
  "choice seq i = (if seq = [] then Inl IndexError else Inr (seq ! i))"

text \<open>\<^verbatim>\<open>itertools.accumulate\<close>: the running sums of the weights.\<close>

fun accumulate_from :: "real \<Rightarrow> real list \<Rightarrow> real list" where
  "accumulate_from acc [] = []"
| "accumulate_from acc (w # ws) = (acc + w) # accumulate_from (acc + w) ws"

definition accumulate :: "real list \<Rightarrow> real list" where
  "accumulate ws = accumulate_from 0 ws"

text \<open>\<^verbatim>\<open>bisect.bisect_right(a, x, lo, hi)\<close>, the binary search of the library.\<close>

function bisect :: "real list \<Rightarrow> real \<Rightarrow> nat \<Rightarrow> nat \<Rightarrow> nat" where
  "bisect a x lo hi =
     (if lo < hi then
        (let mid = (lo + hi) div 2
         in if x < a ! mid then bisect a x lo mid else bisect a x (mid + 1) hi)
      else lo)"
  by pat_completeness auto
termination
  by (relation "measure (\<lambda>(a, x, lo, hi). hi - lo)") auto

declare bisect.simps [simp del]

text \<open>
  \<^verbatim>\<open>random.choices(population, weights=weights, k=1)[0]\<close>, where \<open>u\<close> is the value of
  \<^verbatim>\<open>random()\<close>, a number in \<open>[0, 1)\<close>: the library accumulates the weights, rejects a
  total that is not positive with \<^verbatim>\<open>ValueError\<close>, and returns the element at
  \<^verbatim>\<open>bisect(cum_weights, u * total, 0, n - 1)\<close>.  A real total is finite, so the
  library's test for a finite total has no branch here; \<open>choices_fl\<close> has it.
\<close>

definition choices :: "'a list \<Rightarrow> real list \<Rightarrow> real \<Rightarrow> py_error + 'a" where
  "choices population weights u =
     (let n = length population;
          cum_weights = accumulate weights
      in if length cum_weights \<noteq> n then Inl ValueError
         else if cum_weights = [] then Inl IndexError
         else let total' = last cum_weights
              in if total' \<le> 0 then Inl ValueError
                 else Inr (population ! bisect cum_weights (u * total') 0 (n - 1)))"

section \<open>Sampling estimator\<close>

text \<open>
  The body of \<^verbatim>\<open>for _ in range(n)\<close>, run \<open>m\<close> more times; \<open>k\<close> counts the calls of
  \<^verbatim>\<open>random()\<close> made so far and \<open>us k\<close> is the value of the next one.
\<close>

fun sample_loop ::
  "corpus \<Rightarrow> real \<Rightarrow> (nat \<Rightarrow> real) \<Rightarrow> nat \<Rightarrow> nat \<Rightarrow> page \<Rightarrow> int dict \<Rightarrow> py_error + int dict" where
  "sample_loop corpus d us k 0 current_page counts = Inr counts"
| "sample_loop corpus d us k (Suc m) current_page counts =
     (case getitem counts current_page of
        Inl e \<Rightarrow> Inl e
      | Inr c \<Rightarrow>
          (case transition_model corpus current_page d of
             Inl e \<Rightarrow> Inl e
           | Inr probs \<Rightarrow>
               (case choices (dict_keys probs) (dict_values probs) (us k) of
                  Inl e \<Rightarrow> Inl e
                | Inr next_page \<Rightarrow>
                    sample_loop corpus d us (Suc k) m next_page
                      (setitem counts current_page (c + 1)))))"

text \<open>
  \<^verbatim>\<open>sample_pagerank(corpus, damping_factor, n)\<close> with the start index \<open>i\<close> and the
  variates \<open>us\<close> as inputs.  \<^verbatim>\<open>range(n)\<close> is empty for \<open>n \<le> 0\<close>; the final
  comprehension divides by \<open>n\<close> for the first item of \<^verbatim>\<open>counts\<close>, if there is one.
\<close>

definition sample_pagerank ::
  "corpus \<Rightarrow> real \<Rightarrow> int \<Rightarrow> nat \<Rightarrow> (nat \<Rightarrow> real) \<Rightarrow> py_error + real dict" where
  "sample_pagerank corpus d n i us =
     (case choice (dict_keys corpus) i of
        Inl e \<Rightarrow> Inl e
      | Inr current_page \<Rightarrow>
          (case sample_loop corpus d us 0 (nat n) current_page
                  (map (\<lambda>page. (page, 0)) (dict_keys corpus)) of
             Inl e \<Rightarrow> Inl e
           | Inr counts \<Rightarrow>
               if counts \<noteq> [] \<and> n = 0 then Inl ZeroDivisionError
               else Inr (map (\<lambda>(page, count). (page, real_of_int count / real_of_int n))
                          counts)))"

section \<open>Iterative estimator\<close>

text \<open>The inner loop \<^verbatim>\<open>for possible_page in corpus\<close>, which accumulates \<^verbatim>\<open>total\<close>.\<close>

fun total_loop ::
  "corpus \<Rightarrow> real dict \<Rightarrow> nat \<Rightarrow> page \<Rightarrow> page list \<Rightarrow> real \<Rightarrow> py_error + real" where
  "total_loop corpus pagerank N page [] total' = Inr total'"
| "total_loop corpus pagerank N page (possible_page # rest) total' =
     (case getitem corpus possible_page of
        Inl e \<Rightarrow> Inl e
      | Inr links \<Rightarrow>
          if links \<noteq> {||} then
            (if page |\<in>| links then
               (case getitem pagerank possible_page of
                  Inl e \<Rightarrow> Inl e
                | Inr r \<Rightarrow>
                    total_loop corpus pagerank N page rest (total' + r / real (fcard links)))
             else total_loop corpus pagerank N page rest total')
          else
            (case getitem pagerank possible_page of
               Inl e \<Rightarrow> Inl e
             | Inr r \<Rightarrow> total_loop corpus pagerank N page rest (total' + r / real N)))"

text \<open>The outer loop \<^verbatim>\<open>for page in corpus\<close>, which fills \<^verbatim>\<open>new_ranks\<close>.\<close>

fun ranks_loop ::
  "corpus \<Rightarrow> real \<Rightarrow> real dict \<Rightarrow> nat \<Rightarrow> page list \<Rightarrow> real dict \<Rightarrow> py_error + real dict" where
  "ranks_loop corpus d pagerank N [] new_ranks = Inr new_ranks"
| "ranks_loop corpus d pagerank N (page # rest) new_ranks =
     (case total_loop corpus pagerank N page (dict_keys corpus) 0 of
        Inl e \<Rightarrow> Inl e
      | Inr total' \<Rightarrow>
          ranks_loop corpus d pagerank N rest
            (setitem new_ranks page ((1 - d) / real N + d * total')))"

text \<open>The convergence test \<^verbatim>\<open>for page in pagerank\<close>, with its \<^verbatim>\<open>break\<close>.\<close>

fun converged_loop :: "real dict \<Rightarrow> real dict \<Rightarrow> page list \<Rightarrow> py_error + bool" where
  "converged_loop new_ranks pagerank [] = Inr True"
| "converged_loop new_ranks pagerank (page # rest) =
     (case getitem new_ranks page of
        Inl e \<Rightarrow> Inl e
      | Inr new \<Rightarrow>
          (case getitem pagerank page of
             Inl e \<Rightarrow> Inl e
           | Inr old \<Rightarrow>
               if \<bar>new - old\<bar> > 1 / 1000 then Inr False
               else converged_loop new_ranks pagerank rest))"

text \<open>
  \<^verbatim>\<open>while not converged\<close>: the loop has no bound in the source, so it is a partial
  function, and \<open>None\<close> is the run that never returns.
\<close>

partial_function (option) iterate_loop ::
  "corpus \<Rightarrow> real \<Rightarrow> nat \<Rightarrow> real dict \<Rightarrow> (py_error + real dict) option" where
  "iterate_loop corpus d N pagerank =
     (case ranks_loop corpus d pagerank N (dict_keys corpus) [] of
        Inl e \<Rightarrow> Some (Inl e)
      | Inr new_ranks \<Rightarrow>
          (case converged_loop new_ranks pagerank (dict_keys pagerank) of
             Inl e \<Rightarrow> Some (Inl e)
           | Inr converged \<Rightarrow>
               if converged then Some (Inr new_ranks)
               else iterate_loop corpus d N new_ranks))"

declare iterate_loop.simps [code]

definition iterate_pagerank :: "corpus \<Rightarrow> real \<Rightarrow> (py_error + real dict) option" where
  "iterate_pagerank corpus d =
     (let N = length corpus
      in iterate_loop corpus d N (map (\<lambda>page. (page, 1 / real N)) (dict_keys corpus)))"

section \<open>The update rule and the random walk, as specified\<close>

text \<open>
  The definitions of this section follow the wording of the specification; the
  theorems compare the program with them.  A rank table is read as a function from
  pages to ranks, and a function is tabulated over a list of pages.
\<close>

definition rank_of :: "real dict \<Rightarrow> page \<Rightarrow> real" where
  "rank_of pagerank p = (case map_of pagerank p of None \<Rightarrow> 0 | Some r \<Rightarrow> r)"

definition table :: "page list \<Rightarrow> (page \<Rightarrow> 'v) \<Rightarrow> 'v dict" where
  "table ps f = map (\<lambda>p. (p, f p)) ps"

text \<open>
  The contribution of page \<open>q\<close> to page \<open>p\<close>: \<open>rank q / |links q|\<close> if \<open>p\<close> is a link of
  \<open>q\<close>, \<open>rank q / N\<close> if \<open>q\<close> has no links, and nothing otherwise.
\<close>

definition contribution :: "corpus \<Rightarrow> (page \<Rightarrow> real) \<Rightarrow> page \<Rightarrow> page \<Rightarrow> real" where
  "contribution corpus rank q p =
     (case map_of corpus q of
        None \<Rightarrow> 0
      | Some links \<Rightarrow>
          if p |\<in>| links then rank q / real (fcard links)
          else if links = {||} then rank q / real (length corpus)
          else 0)"

text \<open>The update rule: \<open>new_rank p = (1 - d) / N + d * (\<Sum>q. contribution q p)\<close>.\<close>

definition update_rule :: "corpus \<Rightarrow> real \<Rightarrow> (page \<Rightarrow> real) \<Rightarrow> page \<Rightarrow> real" where
  "update_rule corpus d rank p =
     (1 - d) / real (length corpus)
       + d * (\<Sum>q\<leftarrow>dict_keys corpus. contribution corpus rank q p)"

text \<open>The sequence of rank vectors: \<open>1 / N\<close> everywhere, then the update rule again and again.\<close>

definition iterates :: "corpus \<Rightarrow> real \<Rightarrow> nat \<Rightarrow> page \<Rightarrow> real" where
  "iterates corpus d k = (update_rule corpus d ^^ k) (\<lambda>p. 1 / real (length corpus))"

text \<open>The convergence test between the rank vectors \<open>k\<close> and \<open>k + 1\<close>.\<close>

definition converged_at :: "corpus \<Rightarrow> real \<Rightarrow> nat \<Rightarrow> bool" where
  "converged_at corpus d k \<longleftrightarrow>
     (\<forall>p \<in> set (dict_keys corpus).
        \<bar>iterates corpus d (Suc k) p - iterates corpus d k p\<bar> \<le> 1 / 1000)"

text \<open>The distance of two rank vectors: the sum of the absolute differences.\<close>

definition l1_dist :: "corpus \<Rightarrow> (page \<Rightarrow> real) \<Rightarrow> (page \<Rightarrow> real) \<Rightarrow> real" where
  "l1_dist corpus r r' = (\<Sum>p\<leftarrow>dict_keys corpus. \<bar>r p - r' p\<bar>)"

text \<open>
  The random walk of the sampling estimator: the pages visited in \<open>m\<close> steps from
  \<open>current_page\<close>, each next page drawn by weighted choice from the transition model
  of the current one.
\<close>

fun spec_walk ::
  "corpus \<Rightarrow> real \<Rightarrow> (nat \<Rightarrow> real) \<Rightarrow> nat \<Rightarrow> nat \<Rightarrow> page \<Rightarrow> py_error + page list" where
  "spec_walk corpus d us k 0 current_page = Inr []"
| "spec_walk corpus d us k (Suc m) current_page =
     (case transition_model corpus current_page d of
        Inl e \<Rightarrow> Inl e
      | Inr probs \<Rightarrow>
          (case choices (dict_keys probs) (dict_values probs) (us k) of
             Inl e \<Rightarrow> Inl e
           | Inr next_page \<Rightarrow>
               (case spec_walk corpus d us (Suc k) m next_page of
                  Inl e \<Rightarrow> Inl e
                | Inr visits \<Rightarrow> Inr (current_page # visits))))"

text \<open>The estimate of the specification: visit count divided by \<open>n\<close>, for every page.\<close>

definition spec_sample_pagerank ::
  "corpus \<Rightarrow> real \<Rightarrow> int \<Rightarrow> nat \<Rightarrow> (nat \<Rightarrow> real) \<Rightarrow> py_error + real dict" where
  "spec_sample_pagerank corpus d n i us =
     (case choice (dict_keys corpus) i of
        Inl e \<Rightarrow> Inl e
      | Inr start \<Rightarrow>
          (case spec_walk corpus d us 0 (nat n) start of
             Inl e \<Rightarrow> Inl e
           | Inr visits \<Rightarrow>
               Inr (table (dict_keys corpus)
                      (\<lambda>p. real (count_list visits p) / real_of_int n))))"

section \<open>Double-precision arithmetic\<close>

text \<open>
  The program computes with Python floats, that is IEEE 754 binary64 numbers.  A float
  is a real number (a double, when it is the result of an operation), an infinity or
  not-a-number; the sign of zero is not modelled, as no operation of the program
  depends on it.
\<close>

datatype pyfloat = Fin real | PInf | MInf | NaN

text \<open>
  Rounding to the nearest double, ties to even: a number with exponent \<open>e\<close> is rounded
  to a multiple of \<open>2 ^ (e - 52)\<close>; the exponent is at least \<open>-1022\<close> (below that the
  doubles are subnormal, with a fixed spacing), and a result of \<open>2 ^ 1024\<close> or more is an
  infinity.
\<close>

definition pow2 :: "int \<Rightarrow> real" where
  "pow2 e = (if 0 \<le> e then 2 ^ nat e else 1 / 2 ^ nat (- e))"

definition rne_from :: "int \<Rightarrow> real \<Rightarrow> int" where
  "rne_from f y =
     (if y - of_int f < 1 / 2 then f
      else if 1 / 2 < y - of_int f then f + 1
      else if even f then f else f + 1)"

definition rne :: "real \<Rightarrow> int" where
  "rne y = rne_from \<lfloor>y\<rfloor> y"

function exp_down :: "real \<Rightarrow> int \<Rightarrow> int" where
  "exp_down x e = (if e \<le> - 1022 \<or> pow2 e \<le> x then e else exp_down x (e - 1))"
  by pat_completeness auto
termination
  by (relation "measure (\<lambda>(x, e). nat (e + 1022))") auto

declare exp_down.simps [simp del]

function exp_up :: "real \<Rightarrow> int \<Rightarrow> int" where
  "exp_up x e = (if 1024 \<le> e \<or> x < pow2 (e + 1) then e else exp_up x (e + 1))"
  by pat_completeness auto
termination
  by (relation "measure (\<lambda>(x, e). nat (1024 - e))") auto

declare exp_up.simps [simp del]

definition exponent :: "real \<Rightarrow> int" where
  "exponent x = (if 1 \<le> x then exp_up x 0 else exp_down x (- 1))"

definition scale_round :: "real \<Rightarrow> real \<Rightarrow> real" where
  "scale_round a u = real_of_int (rne (a / u)) * u"

definition pack :: "bool \<Rightarrow> real \<Rightarrow> pyfloat" where
  "pack positive m =
     (if pow2 1024 \<le> m then (if positive then PInf else MInf)
      else Fin (if positive then m else - m))"

definition round_double :: "real \<Rightarrow> pyfloat" where
  "round_double x =
     (if x = 0 then Fin 0
      else pack (0 < x) (scale_round \<bar>x\<bar> (pow2 (exponent \<bar>x\<bar> - 52))))"

text \<open>
  The operations of IEEE 754: the exact result rounded, with the usual rules for
  infinities and not-a-number.  Python raises \<^verbatim>\<open>ZeroDivisionError\<close> on a zero divisor; the
  divisors of the program are counts of pages or of links, at least 1 where the
  division is reached.
\<close>

fun fl_neg :: "pyfloat \<Rightarrow> pyfloat" where
  "fl_neg (Fin a) = Fin (- a)"
| "fl_neg PInf = MInf"
| "fl_neg MInf = PInf"
| "fl_neg NaN = NaN"

fun fl_add :: "pyfloat \<Rightarrow> pyfloat \<Rightarrow> pyfloat" where
  "fl_add (Fin a) (Fin b) = round_double (a + b)"
| "fl_add NaN y = NaN"
| "fl_add x NaN = NaN"
| "fl_add PInf MInf = NaN"
| "fl_add MInf PInf = NaN"
| "fl_add PInf y = PInf"
| "fl_add MInf y = MInf"
| "fl_add x PInf = PInf"
| "fl_add x MInf = MInf"

definition fl_sub :: "pyfloat \<Rightarrow> pyfloat \<Rightarrow> pyfloat" where
  "fl_sub x y = fl_add x (fl_neg y)"

definition signed_inf :: "bool \<Rightarrow> pyfloat" where
  "signed_inf positive = (if positive then PInf else MInf)"

fun fl_mul :: "pyfloat \<Rightarrow> pyfloat \<Rightarrow> pyfloat" where
  "fl_mul (Fin a) (Fin b) = round_double (a * b)"
| "fl_mul NaN y = NaN"
| "fl_mul x NaN = NaN"
| "fl_mul PInf (Fin b) = (if b = 0 then NaN else signed_inf (0 < b))"
| "fl_mul MInf (Fin b) = (if b = 0 then NaN else signed_inf (b < 0))"
| "fl_mul (Fin a) PInf = (if a = 0 then NaN else signed_inf (0 < a))"
| "fl_mul (Fin a) MInf = (if a = 0 then NaN else signed_inf (a < 0))"
| "fl_mul PInf PInf = PInf"
| "fl_mul PInf MInf = MInf"
| "fl_mul MInf PInf = MInf"
| "fl_mul MInf MInf = PInf"

fun fl_div :: "pyfloat \<Rightarrow> pyfloat \<Rightarrow> pyfloat" where
  "fl_div (Fin a) (Fin b) = round_double (a / b)"
| "fl_div NaN y = NaN"
| "fl_div x NaN = NaN"
| "fl_div PInf (Fin b) = signed_inf (0 \<le> b)"
| "fl_div MInf (Fin b) = signed_inf (b < 0)"
| "fl_div (Fin a) PInf = Fin 0"
| "fl_div (Fin a) MInf = Fin 0"
| "fl_div PInf PInf = NaN"
| "fl_div PInf MInf = NaN"
| "fl_div MInf PInf = NaN"
| "fl_div MInf MInf = NaN"

fun fl_abs :: "pyfloat \<Rightarrow> pyfloat" where
  "fl_abs (Fin a) = Fin \<bar>a\<bar>"
| "fl_abs PInf = PInf"
| "fl_abs MInf = PInf"
| "fl_abs NaN = NaN"

fun fl_less :: "pyfloat \<Rightarrow> pyfloat \<Rightarrow> bool" where
  "fl_less (Fin a) (Fin b) \<longleftrightarrow> a < b"
| "fl_less NaN y \<longleftrightarrow> False"
| "fl_less x NaN \<longleftrightarrow> False"
| "fl_less PInf y \<longleftrightarrow> False"
| "fl_less x MInf \<longleftrightarrow> False"
| "fl_less MInf y \<longleftrightarrow> True"
| "fl_less x PInf \<longleftrightarrow> True"

fun fl_less_eq :: "pyfloat \<Rightarrow> pyfloat \<Rightarrow> bool" where
  "fl_less_eq (Fin a) (Fin b) \<longleftrightarrow> a \<le> b"
| "fl_less_eq NaN y \<longleftrightarrow> False"
| "fl_less_eq x NaN \<longleftrightarrow> False"
| "fl_less_eq MInf y \<longleftrightarrow> True"
| "fl_less_eq x PInf \<longleftrightarrow> True"
| "fl_less_eq PInf y \<longleftrightarrow> False"
| "fl_less_eq x MInf \<longleftrightarrow> False"

fun fl_isfinite :: "pyfloat \<Rightarrow> bool" where
  "fl_isfinite (Fin a) \<longleftrightarrow> True"
| "fl_isfinite x \<longleftrightarrow> False"

text \<open>
  An integer operand of a float operation is converted to a float first; the quotient
  of two integers is the exact quotient rounded once.
\<close>

definition float_of_int :: "int \<Rightarrow> pyfloat" where
  "float_of_int k = round_double (real_of_int k)"

definition int_truediv :: "int \<Rightarrow> int \<Rightarrow> pyfloat" where
  "int_truediv a b = round_double (real_of_int a / real_of_int b)"

fun fl_real :: "pyfloat \<Rightarrow> real" where
  "fl_real (Fin a) = a"
| "fl_real x = 0"

section \<open>The estimators in double precision\<close>

text \<open>
  The same functions with every arithmetic operation of the source rounded as Python
  rounds it.  The damping factor and the variates of \<^verbatim>\<open>random()\<close> are floats.
\<close>

definition transition_model_fl :: "corpus \<Rightarrow> page \<Rightarrow> pyfloat \<Rightarrow> py_error + pyfloat dict" where
  "transition_model_fl corpus page damping_factor =
     (case getitem corpus page of
        Inl e \<Rightarrow> Inl e
      | Inr linked_pages \<Rightarrow>
          if linked_pages \<noteq> {||} then
            Inr (map (\<lambda>p.
                  (p, if p |\<in>| linked_pages
                      then fl_add
                             (fl_div (fl_sub (Fin 1) damping_factor)
                                (float_of_int (int (length corpus))))
                             (fl_div damping_factor (float_of_int (int (fcard linked_pages))))
                      else fl_div (fl_sub (Fin 1) damping_factor)
                             (float_of_int (int (length corpus)))))
                 (dict_keys corpus))
          else
            Inr (map (\<lambda>p. (p, int_truediv 1 (int (length corpus)))) (dict_keys corpus)))"

text \<open>
  \<^verbatim>\<open>random.choices\<close>: the running sums are float sums, the total is tested for being
  positive and finite, and the binary search compares floats.
\<close>

fun accumulate_from_fl :: "pyfloat \<Rightarrow> pyfloat list \<Rightarrow> pyfloat list" where
  "accumulate_from_fl acc [] = []"
| "accumulate_from_fl acc (w # ws) = fl_add acc w # accumulate_from_fl (fl_add acc w) ws"

fun accumulate_fl :: "pyfloat list \<Rightarrow> pyfloat list" where
  "accumulate_fl [] = []"
| "accumulate_fl (w # ws) = w # accumulate_from_fl w ws"

function bisect_fl :: "pyfloat list \<Rightarrow> pyfloat \<Rightarrow> nat \<Rightarrow> nat \<Rightarrow> nat" where
  "bisect_fl a x lo hi =
     (if lo < hi then
        (if fl_less x (a ! ((lo + hi) div 2)) then bisect_fl a x lo ((lo + hi) div 2)
         else bisect_fl a x ((lo + hi) div 2 + 1) hi)
      else lo)"
  by pat_completeness auto
termination
  by (relation "measure (\<lambda>(a, x, lo, hi). hi - lo)") auto

declare bisect_fl.simps [simp del]

definition choices_fl :: "'a list \<Rightarrow> pyfloat list \<Rightarrow> pyfloat \<Rightarrow> py_error + 'a" where
  "choices_fl population weights u =
     (if length (accumulate_fl weights) \<noteq> length population then Inl ValueError
      else if accumulate_fl weights = [] then Inl IndexError
      else if fl_less_eq (fl_add (last (accumulate_fl weights)) (Fin 0)) (Fin 0) then Inl ValueError
      else if \<not> fl_isfinite (fl_add (last (accumulate_fl weights)) (Fin 0)) then Inl ValueError
      else Inr (population !
             bisect_fl (accumulate_fl weights)
               (fl_mul u (fl_add (last (accumulate_fl weights)) (Fin 0)))
               0 (length population - 1)))"

fun sample_loop_fl ::
  "corpus \<Rightarrow> pyfloat \<Rightarrow> (nat \<Rightarrow> pyfloat) \<Rightarrow> nat \<Rightarrow> nat \<Rightarrow> page \<Rightarrow> int dict
     \<Rightarrow> py_error + int dict" where
  "sample_loop_fl corpus d us k 0 current_page counts = Inr counts"
| "sample_loop_fl corpus d us k (Suc m) current_page counts =
     (case getitem counts current_page of
        Inl e \<Rightarrow> Inl e
      | Inr c \<Rightarrow>
          (case transition_model_fl corpus current_page d of
             Inl e \<Rightarrow> Inl e
           | Inr probs \<Rightarrow>
               (case choices_fl (dict_keys probs) (dict_values probs) (us k) of
                  Inl e \<Rightarrow> Inl e
                | Inr next_page \<Rightarrow>
                    sample_loop_fl corpus d us (Suc k) m next_page
                      (setitem counts current_page (c + 1)))))"

definition sample_pagerank_fl ::
  "corpus \<Rightarrow> pyfloat \<Rightarrow> int \<Rightarrow> nat \<Rightarrow> (nat \<Rightarrow> pyfloat) \<Rightarrow> py_error + pyfloat dict" where
  "sample_pagerank_fl corpus d n i us =
     (case choice (dict_keys corpus) i of
        Inl e \<Rightarrow> Inl e
      | Inr current_page \<Rightarrow>
          (case sample_loop_fl corpus d us 0 (nat n) current_page
                  (map (\<lambda>page. (page, 0)) (dict_keys corpus)) of
             Inl e \<Rightarrow> Inl e
           | Inr counts \<Rightarrow>
               if counts \<noteq> [] \<and> n = 0 then Inl ZeroDivisionError
               else Inr (map (\<lambda>(page, count). (page, int_truediv count n)) counts)))"

text \<open>
  The iterative estimator: \<^verbatim>\<open>total\<close> starts as the integer 0, the threshold is the double
  nearest to \<open>0.001\<close>.
\<close>

fun total_loop_fl ::
  "corpus \<Rightarrow> pyfloat dict \<Rightarrow> nat \<Rightarrow> page \<Rightarrow> page list \<Rightarrow> pyfloat \<Rightarrow> py_error + pyfloat" where
  "total_loop_fl corpus pagerank N page [] total' = Inr total'"
| "total_loop_fl corpus pagerank N page (possible_page # rest) total' =
     (case getitem corpus possible_page of
        Inl e \<Rightarrow> Inl e
      | Inr links \<Rightarrow>
          if links \<noteq> {||} then
            (if page |\<in>| links then
               (case getitem pagerank possible_page of
                  Inl e \<Rightarrow> Inl e
                | Inr r \<Rightarrow>
                    total_loop_fl corpus pagerank N page rest
                      (fl_add total' (fl_div r (float_of_int (int (fcard links))))))
             else total_loop_fl corpus pagerank N page rest total')
          else
            (case getitem pagerank possible_page of
               Inl e \<Rightarrow> Inl e
             | Inr r \<Rightarrow>
                 total_loop_fl corpus pagerank N page rest
                   (fl_add total' (fl_div r (float_of_int (int N))))))"

fun ranks_loop_fl ::
  "corpus \<Rightarrow> pyfloat \<Rightarrow> pyfloat dict \<Rightarrow> nat \<Rightarrow> page list \<Rightarrow> pyfloat dict
     \<Rightarrow> py_error + pyfloat dict" where
  "ranks_loop_fl corpus d pagerank N [] new_ranks = Inr new_ranks"
| "ranks_loop_fl corpus d pagerank N (page # rest) new_ranks =
     (case total_loop_fl corpus pagerank N page (dict_keys corpus) (Fin 0) of
        Inl e \<Rightarrow> Inl e
      | Inr total' \<Rightarrow>
          ranks_loop_fl corpus d pagerank N rest
            (setitem new_ranks page
               (fl_add (fl_div (fl_sub (Fin 1) d) (float_of_int (int N))) (fl_mul d total'))))"

fun converged_loop_fl :: "pyfloat dict \<Rightarrow> pyfloat dict \<Rightarrow> page list \<Rightarrow> py_error + bool" where
  "converged_loop_fl new_ranks pagerank [] = Inr True"
| "converged_loop_fl new_ranks pagerank (page # rest) =
     (case getitem new_ranks page of
        Inl e \<Rightarrow> Inl e
      | Inr new \<Rightarrow>
          (case getitem pagerank page of
             Inl e \<Rightarrow> Inl e
           | Inr old \<Rightarrow>
               if fl_less (round_double (1 / 1000)) (fl_abs (fl_sub new old)) then Inr False
               else converged_loop_fl new_ranks pagerank rest))"

partial_function (option) iterate_loop_fl ::
  "corpus \<Rightarrow> pyfloat \<Rightarrow> nat \<Rightarrow> pyfloat dict \<Rightarrow> (py_error + pyfloat dict) option" where
  "iterate_loop_fl corpus d N pagerank =
     (case ranks_loop_fl corpus d pagerank N (dict_keys corpus) [] of
        Inl e \<Rightarrow> Some (Inl e)
      | Inr new_ranks \<Rightarrow>
          (case converged_loop_fl new_ranks pagerank (dict_keys pagerank) of
             Inl e \<Rightarrow> Some (Inl e)
           | Inr converged \<Rightarrow>
               if converged then Some (Inr new_ranks)
               else iterate_loop_fl corpus d N new_ranks))"

definition iterate_pagerank_fl :: "corpus \<Rightarrow> pyfloat \<Rightarrow> (py_error + pyfloat dict) option" where
  "iterate_pagerank_fl corpus d =
     iterate_loop_fl corpus d (length corpus)
       (map (\<lambda>page. (page, int_truediv 1 (int (length corpus)))) (dict_keys corpus))"

section \<open>Concrete inputs\<close>

text \<open>Three pages: 1 links to 2, 2 links to 1 and 3, and 3 is a dead end.\<close>

definition corpus0 :: corpus where
  "corpus0 =
     [(''1.html'', {|''2.html''|}),
      (''2.html'', {|''1.html'', ''3.html''|}),
      (''3.html'', {||})]"

text \<open>
  A single page without links.
\<close>

definition corpus1 :: corpus where
  "corpus1 = [(''1.html'', {||})]"

text \<open>
  Four pages: a links to b, b links to c and d, and c and d link back to a; and rank
  tables over them.
\<close>

definition corpus4 :: corpus where
  "corpus4 =
     [(''a.html'', {|''b.html''|}),
      (''b.html'', {|''c.html'', ''d.html''|}),
      (''c.html'', {|''a.html''|}),
      (''d.html'', {|''a.html''|})]"

definition ranks4 :: "real \<Rightarrow> real \<Rightarrow> real \<Rightarrow> real \<Rightarrow> pyfloat dict" where
  "ranks4 a b c d =
     [(''a.html'', Fin a), (''b.html'', Fin b), (''c.html'', Fin c), (''d.html'', Fin d)]"

text \<open>
  Variates for a walk of 22 steps over the three pages, and the transition tables
  that the double-precision transition model computes there for the damping factor
  \<open>1 / 2\<close>.
\<close>

definition draws0 :: "nat \<Rightarrow> pyfloat" where
  "draws0 k = (if k < 14 then Fin (1 / 2) else if k = 14 then Fin (1 / 64) else Fin (63 / 64))"

definition probs1 :: "pyfloat dict" where
  "probs1 =
     [(''1.html'', Fin (6004799503160661 / 36028797018963968)),
      (''2.html'', Fin (6004799503160661 / 9007199254740992)),
      (''3.html'', Fin (6004799503160661 / 36028797018963968))]"

definition probs2 :: "pyfloat dict" where
  "probs2 =
     [(''1.html'', Fin (3752999689475413 / 9007199254740992)),
      (''2.html'', Fin (6004799503160661 / 36028797018963968)),
      (''3.html'', Fin (3752999689475413 / 9007199254740992))]"

definition probs3 :: "pyfloat dict" where
  "probs3 =
     [(''1.html'', Fin (6004799503160661 / 18014398509481984)),
      (''2.html'', Fin (6004799503160661 / 18014398509481984)),
      (''3.html'', Fin (6004799503160661 / 18014398509481984))]"

section \<open>Facts about dictionaries\<close>

lemma dict_keys_Nil [simp]: "dict_keys [] = []"
  by (simp add: dict_keys_def)

lemma dict_keys_Cons [simp]: "dict_keys (kv # d) = fst kv # dict_keys d"
  by (simp add: dict_keys_def)

lemma length_dict_keys [simp]: "length (dict_keys d) = length d"
  by (simp add: dict_keys_def)

lemma dict_keys_eq_Nil [simp]: "dict_keys d = [] \<longleftrightarrow> d = []"
  by (simp add: dict_keys_def)

lemma dict_keys_table [simp]: "dict_keys (map (\<lambda>p. (p, f p)) ps) = ps"
  by (induction ps) simp_all

lemma dict_values_table [simp]: "dict_values (map (\<lambda>p. (p, f p)) ps) = map f ps"
  by (simp add: dict_values_def comp_def)

lemma map_of_table:
  "map_of (map (\<lambda>p. (p, f p)) ps) p = (if p \<in> set ps then Some (f p) else None)"
  by (induction ps) simp_all

lemma getitem_table:
  "getitem (map (\<lambda>p. (p, f p)) ps) p = (if p \<in> set ps then Inr (f p) else Inl KeyError)"
  by (simp add: getitem_def map_of_table)

lemma getitem_key:
  assumes "p \<in> set (dict_keys d)"
  shows "\<exists>v. getitem d p = Inr v \<and> (p, v) \<in> set d"
proof -
  from assms obtain v where "map_of d p = Some v"
    by (metis dict_keys_def domD dom_map_of_conv_image_fst list.set_map)
  then show ?thesis
    by (auto simp: getitem_def dest: map_of_SomeD)
qed

lemma getitem_no_key: "p \<notin> set (dict_keys d) \<Longrightarrow> getitem d p = Inl KeyError"
  by (simp add: getitem_def dict_keys_def map_of_eq_None_iff [THEN iffD2])

lemma getitem_map_of: "getitem d q = Inr v \<longleftrightarrow> map_of d q = Some v"
  by (simp add: getitem_def split: option.splits)

lemma getitem_rank_of: "q \<in> set (dict_keys d) \<Longrightarrow> getitem d q = Inr (rank_of d q)"
  using getitem_key [of q d] by (auto simp: getitem_def rank_of_def split: option.splits)

lemma rank_of_table: "p \<in> set ps \<Longrightarrow> rank_of (table ps f) p = f p"
  by (simp add: rank_of_def table_def map_of_table)

lemma dict_keys_table' [simp]: "dict_keys (table ps f) = ps"
  by (simp add: table_def)

lemma setitem_new: "k \<notin> set (dict_keys d) \<Longrightarrow> setitem d k v = d @ [(k, v)]"
  by (induction d) (auto simp: setitem_def)

lemma setitem_existing:
  assumes "distinct (dict_keys d)" and "k \<in> set (dict_keys d)"
  shows "setitem d k v = map (\<lambda>(p, x). (p, if p = k then v else x)) d"
  using assms
proof (induction d)
  case Nil
  then show ?case by simp
next
  case (Cons a d)
  obtain p x where a: "a = (p, x)" by (cases a)
  show ?case
  proof (cases "p = k")
    case True
    then have "k \<notin> set (dict_keys d)" using Cons.prems(1) a by simp
    then have "map (\<lambda>(p, x). (p, if p = k then v else x)) d = d"
      by (induction d) (auto simp: dict_keys_def)
    then show ?thesis using True a by (simp add: setitem_def)
  next
    case False
    then show ?thesis using Cons a by (simp add: setitem_def)
  qed
qed

lemma corpus0_inv: "graph_inv corpus0"
  by (simp add: graph_inv_def is_dict_def corpus0_def)

lemma corpus0_keys: "dict_keys corpus0 = [''1.html'', ''2.html'', ''3.html'']"
  by (simp add: corpus0_def)

lemma corpus0_dict: "is_dict corpus0"
  using corpus0_inv by (simp add: graph_inv_def)

lemma corpus0_nonempty: "corpus0 \<noteq> []"
  by (simp add: corpus0_def)

section \<open>Sums over the pages\<close>

lemma fcard_pos: "links \<noteq> {||} \<Longrightarrow> 0 < fcard links"
  by (metis fcard_fempty fcard_seteq fempty_fsubsetI not_gr_zero order_refl)

lemma count_links:
  assumes "distinct ps" and "fset L \<subseteq> set ps"
  shows "length (filter (\<lambda>p. p |\<in>| L) ps) = fcard L"
proof -
  have "length (filter (\<lambda>p. p |\<in>| L) ps) = card ({p. p |\<in>| L} \<inter> set ps)"
    using assms(1) by (rule distinct_length_filter)
  also have "{p. p |\<in>| L} \<inter> set ps = fset L"
    using assms(2) by auto
  finally show ?thesis by (simp add: fcard.rep_eq)
qed

lemma sum_list_if_const:
  "sum_list (map (\<lambda>p. if P p then a + b else a) ps)
     = real (length ps) * a + real (length (filter P ps)) * (b::real)"
  by (induction ps) (simp_all add: algebra_simps)

lemma sum_list_const: "sum_list (map (\<lambda>p. c) ps) = real (length ps) * (c::real)"
  by (induction ps) (simp_all add: algebra_simps)

lemma sum_list_divide:
  "(\<Sum>p\<leftarrow>ps. real (f p) / c) = real (\<Sum>p\<leftarrow>ps. f p) / c"
  by (induction ps) (simp_all add: add_divide_distrib)

lemma sum_list_pos':
  "ws \<noteq> [] \<Longrightarrow> \<forall>w \<in> set ws. 0 < w \<Longrightarrow> 0 < sum_list (ws :: real list)"
  by (induction ws) (auto intro: add_pos_nonneg sum_list_nonneg less_imp_le)

lemma sum_keys: "is_dict corpus \<Longrightarrow> (\<Sum>p\<leftarrow>dict_keys corpus. f p) = sum f (set (dict_keys corpus))"
  by (simp add: is_dict_def sum_list_distinct_conv_sum_set)

lemma card_keys: "is_dict corpus \<Longrightarrow> card (set (dict_keys corpus)) = length corpus"
  by (simp add: is_dict_def distinct_card)

lemma sum_indicator:
  assumes "finite K"
  shows "(\<Sum>p\<in>K. if p |\<in>| L then c else 0) = real (card (K \<inter> fset L)) * (c::real)"
proof -
  have "(\<Sum>p\<in>K. if p |\<in>| L then c else 0) = (\<Sum>p\<in>K \<inter> fset L. c)"
    using assms by (simp add: sum.inter_restrict [symmetric])
  then show ?thesis by simp
qed

lemma sum_list_int: "(\<Sum>p\<leftarrow>ps. int (f p)) = int (\<Sum>p\<leftarrow>ps. f p)"
  by (induction ps) simp_all

lemma count_one:
  "distinct ps \<Longrightarrow> v \<in> set ps \<Longrightarrow> (\<Sum>p\<leftarrow>ps. if v = p then 1 else 0) = (1::nat)"
  by (induction ps) auto

lemma sum_count_list:
  assumes "distinct ps" and "set vs \<subseteq> set ps"
  shows "(\<Sum>p\<leftarrow>ps. count_list vs p) = length vs"
  using assms(2)
proof (induction vs)
  case Nil
  then show ?case by simp
next
  case (Cons v vs)
  have "(\<Sum>p\<leftarrow>ps. count_list (v # vs) p)
          = (\<Sum>p\<leftarrow>ps. count_list vs p) + (\<Sum>p\<leftarrow>ps. if v = p then 1 else 0)"
    by (simp add: sum_list_addf [symmetric] cong: if_cong) (rule arg_cong [where f = sum_list], auto)
  then show ?case
    using Cons count_one [OF assms(1), of v] by simp
qed

section \<open>The transition model\<close>

lemma transition_model_keys:
  assumes "transition_model corpus page d = Inr probs"
  shows "dict_keys probs = dict_keys corpus" and "length (dict_values probs) = length corpus"
  using assms
  by (auto simp: transition_model_def Let_def dict_values_def split: sum.splits if_splits)

lemma transition_model_sum:
  assumes "graph_inv corpus" and "page \<in> set (dict_keys corpus)"
  shows "\<exists>probs. transition_model corpus page d = Inr probs \<and> sum_list (dict_values probs) = 1"
proof -
  from getitem_key [OF assms(2)] obtain links
    where l: "getitem corpus page = Inr links" and m: "(page, links) \<in> set corpus"
    by blast
  have N: "0 < length corpus"
    using m by (cases corpus) auto
  have d: "distinct (dict_keys corpus)"
    using assms(1) by (simp add: graph_inv_def is_dict_def)
  have sub: "fset links \<subseteq> set (dict_keys corpus)"
    using assms(1) m by (auto simp: graph_inv_def list_all_iff)
  show ?thesis
  proof (cases "links = {||}")
    case True
    then show ?thesis
      using l N by (simp add: transition_model_def Let_def sum_list_const)
  next
    case False
    let ?f = "\<lambda>p. if p |\<in>| links
                  then (1 - d) / real (length corpus) + d / real (fcard links)
                  else (1 - d) / real (length corpus)"
    have tm: "transition_model corpus page d = Inr (map (\<lambda>p. (p, ?f p)) (dict_keys corpus))"
      using l False by (simp add: transition_model_def Let_def)
    have "sum_list (map ?f (dict_keys corpus))
            = real (length corpus) * ((1 - d) / real (length corpus))
              + real (fcard links) * (d / real (fcard links))"
      by (simp add: sum_list_if_const count_links [OF d sub])
    also have "\<dots> = 1"
      using N False by simp
    finally show ?thesis
      unfolding tm by simp
  qed
qed

lemma transition_model_positive:
  assumes "page \<in> set (dict_keys corpus)" and "0 < d" and "d < 1"
  shows "\<exists>probs. transition_model corpus page d = Inr probs \<and> (\<forall>w \<in> set (dict_values probs). 0 < w)"
proof -
  from getitem_key [OF assms(1)] obtain links
    where l: "getitem corpus page = Inr links" and m: "(page, links) \<in> set corpus"
    by blast
  have N: "0 < real (length corpus)"
    using m by (cases corpus) auto
  then have a: "0 < (1 - d) / real (length corpus)" and c: "0 < 1 / real (length corpus)"
    using assms(3) by simp_all
  have b: "0 \<le> d / real (fcard links)"
    using assms(2) by simp
  show ?thesis
  proof (cases "links = {||}")
    case True
    then show ?thesis
      using l c by (auto simp: transition_model_def Let_def)
  next
    case False
    then show ?thesis
      using l a b by (auto simp: transition_model_def Let_def intro: add_pos_nonneg)
  qed
qed

section \<open>Claims about the transition model\<close>

text \<open>
  C10.  For a page that is not a key of the graph, \<^verbatim>\<open>transition_model\<close> returns no
  distribution: the lookup of the page's link set raises \<^verbatim>\<open>KeyError\<close>.
\<close>

theorem transition_model_KeyError:
  assumes "corpus \<noteq> []" and "page \<notin> set (dict_keys corpus)"
  shows "transition_model corpus page d = Inl KeyError"
  using assms by (simp add: transition_model_def getitem_no_key)

theorem transition_model_KeyError_witness:
  "corpus0 \<noteq> [] \<and> ''4.html'' \<notin> set (dict_keys corpus0)
   \<and> transition_model corpus0 ''4.html'' (85 / 100) = Inl KeyError"
proof -
  have h1: "corpus0 \<noteq> []"
    by (simp add: corpus0_def)
  have h2: "''4.html'' \<notin> set (dict_keys corpus0)"
    by (simp add: corpus0_keys)
  from transition_model_KeyError [OF h1 h2] h1 h2 show ?thesis
    by blast
qed

text \<open>
  C2.  For a graph that satisfies the invariants, a page that is a key and a damping
  factor \<open>d\<close> in \<open>(0, 1)\<close>, \<^verbatim>\<open>transition_model\<close> returns a table that gives every page
  \<open>p\<close> of the corpus of size \<open>N\<close> the probability \<open>(1 - d) / N + d / k\<close> when the link
  set \<open>L\<close> of the current page is not empty, has \<open>k\<close> elements and contains \<open>p\<close>, the
  probability \<open>(1 - d) / N\<close> when \<open>L\<close> is not empty and \<open>p\<close> is not in it, and \<open>1 / N\<close>
  when \<open>L\<close> is empty.
\<close>

theorem transition_model_probabilities:
  assumes "graph_inv corpus" and "page \<in> set (dict_keys corpus)" and "0 < d" and "d < 1"
  shows "\<exists>links probs.
           getitem corpus page = Inr links \<and>
           transition_model corpus page d = Inr probs \<and>
           (\<forall>p \<in> set (dict_keys corpus).
              getitem probs p =
                Inr (if links \<noteq> {||}
                     then (if p |\<in>| links
                           then (1 - d) / real (length corpus) + d / real (fcard links)
                           else (1 - d) / real (length corpus))
                     else 1 / real (length corpus)))"
proof -
  from getitem_key [OF assms(2)] obtain links where l: "getitem corpus page = Inr links"
    by blast
  show ?thesis
    using l by (auto simp: transition_model_def Let_def getitem_table)
qed

theorem transition_model_probabilities_witness:
  "graph_inv corpus0 \<and> ''2.html'' \<in> set (dict_keys corpus0)
   \<and> (0::real) < 85 / 100 \<and> (85 / 100 :: real) < 1
   \<and> (\<exists>links probs.
         getitem corpus0 ''2.html'' = Inr links \<and>
         transition_model corpus0 ''2.html'' (85 / 100) = Inr probs \<and>
         (\<forall>p \<in> set (dict_keys corpus0).
            getitem probs p =
              Inr (if links \<noteq> {||}
                   then (if p |\<in>| links
                         then (1 - 85 / 100) / real (length corpus0) + (85 / 100) / real (fcard links)
                         else (1 - 85 / 100) / real (length corpus0))
                   else 1 / real (length corpus0))))"
proof -
  have h2: "''2.html'' \<in> set (dict_keys corpus0)"
    by (simp add: corpus0_keys)
  have h3: "(0::real) < 85 / 100" and h4: "(85 / 100 :: real) < 1"
    by simp_all
  from transition_model_probabilities [OF corpus0_inv h2 h3 h4] corpus0_inv h2 h3 h4
  show ?thesis
    by blast
qed

text \<open>
  C5.  Under the same conditions the table returned by \<^verbatim>\<open>transition_model\<close> has exactly
  the keys of the graph, every value is non-negative, and the values sum to 1.
\<close>

theorem transition_model_distribution:
  assumes "graph_inv corpus" and "page \<in> set (dict_keys corpus)" and "0 < d" and "d < 1"
  shows "\<exists>probs.
           transition_model corpus page d = Inr probs \<and>
           dict_keys probs = dict_keys corpus \<and>
           (\<forall>v \<in> set (dict_values probs). 0 \<le> v) \<and>
           sum_list (dict_values probs) = 1"
proof -
  from transition_model_sum [OF assms(1,2), of d] obtain probs
    where p: "transition_model corpus page d = Inr probs" and s: "sum_list (dict_values probs) = 1"
    by blast
  from transition_model_positive [OF assms(2,3,4)] p
  have "\<forall>v \<in> set (dict_values probs). 0 < v"
    by simp
  then have "\<forall>v \<in> set (dict_values probs). 0 \<le> v"
    by (simp add: less_imp_le)
  then show ?thesis
    using p s transition_model_keys(1) [OF p] by blast
qed

theorem transition_model_distribution_witness:
  "graph_inv corpus0 \<and> ''2.html'' \<in> set (dict_keys corpus0)
   \<and> (0::real) < 85 / 100 \<and> (85 / 100 :: real) < 1
   \<and> (\<exists>probs.
         transition_model corpus0 ''2.html'' (85 / 100) = Inr probs \<and>
         dict_keys probs = dict_keys corpus0 \<and>
         (\<forall>v \<in> set (dict_values probs). 0 \<le> v) \<and>
         sum_list (dict_values probs) = 1)"
proof -
  have h2: "''2.html'' \<in> set (dict_keys corpus0)"
    by (simp add: corpus0_keys)
  have h3: "(0::real) < 85 / 100" and h4: "(85 / 100 :: real) < 1"
    by simp_all
  from transition_model_distribution [OF corpus0_inv h2 h3 h4] corpus0_inv h2 h3 h4
  show ?thesis
    by blast
qed


section \<open>One pass of the iterative estimator\<close>

text \<open>
  The loops of \<^verbatim>\<open>iterate_pagerank\<close> raise no \<^verbatim>\<open>KeyError\<close> when the rank table has the
  keys of the corpus: they compute the update rule from the previous table, and the
  convergence test from the two tables.
\<close>

lemma total_loop_eq:
  assumes "set qs \<subseteq> set (dict_keys corpus)" and "set qs \<subseteq> set (dict_keys pagerank)"
  shows "total_loop corpus pagerank (length corpus) page qs t
           = Inr (t + (\<Sum>q\<leftarrow>qs. contribution corpus (rank_of pagerank) q page))"
  using assms
proof (induction qs arbitrary: t)
  case Nil
  then show ?case by simp
next
  case (Cons q qs)
  from Cons.prems obtain links where l: "getitem corpus q = Inr links"
    using getitem_key [of q corpus] by auto
  then have m: "map_of corpus q = Some links"
    by (simp add: getitem_map_of)
  have r: "getitem pagerank q = Inr (rank_of pagerank q)"
    using Cons.prems by (simp add: getitem_rank_of)
  have ih: "\<And>t. total_loop corpus pagerank (length corpus) page qs t
           = Inr (t + (\<Sum>q\<leftarrow>qs. contribution corpus (rank_of pagerank) q page))"
    using Cons by simp
  show ?case
    by (simp add: l r ih contribution_def m)
qed

lemma ranks_loop_eq:
  assumes "set (dict_keys corpus) \<subseteq> set (dict_keys pagerank)"
    and "distinct ps" and "set ps \<inter> set (dict_keys acc) = {}"
  shows "ranks_loop corpus d pagerank (length corpus) ps acc
           = Inr (acc @ table ps (update_rule corpus d (rank_of pagerank)))"
  using assms(2,3)
proof (induction ps arbitrary: acc)
  case Nil
  then show ?case by (simp add: table_def)
next
  case (Cons p ps)
  have t: "total_loop corpus pagerank (length corpus) p (dict_keys corpus) 0
             = Inr (\<Sum>q\<leftarrow>dict_keys corpus. contribution corpus (rank_of pagerank) q p)"
    using total_loop_eq [OF order_refl assms(1), of p 0] by simp
  have new: "p \<notin> set (dict_keys acc)"
    using Cons.prems by auto
  have "set ps \<inter> set (dict_keys (acc @ [(p, v)])) = {}" for v
    using Cons.prems by (auto simp: dict_keys_def)
  then show ?case
    using Cons.prems Cons.IH by (simp add: t setitem_new [OF new] table_def update_rule_def)
qed

lemma converged_loop_eq:
  assumes "set ps \<subseteq> set (dict_keys new_ranks)" and "set ps \<subseteq> set (dict_keys pagerank)"
  shows "converged_loop new_ranks pagerank ps
           = Inr (\<forall>p \<in> set ps. \<bar>rank_of new_ranks p - rank_of pagerank p\<bar> \<le> 1 / 1000)"
  using assms by (induction ps) (auto simp: getitem_rank_of)

lemma iterate_loop_step:
  assumes "is_dict corpus" and "dict_keys pagerank = dict_keys corpus"
  shows "iterate_loop corpus d (length corpus) pagerank =
           (let new_ranks = table (dict_keys corpus) (update_rule corpus d (rank_of pagerank))
            in if \<forall>p \<in> set (dict_keys corpus). \<bar>rank_of new_ranks p - rank_of pagerank p\<bar> \<le> 1 / 1000
               then Some (Inr new_ranks)
               else iterate_loop corpus d (length corpus) new_ranks)"
proof -
  let ?new = "table (dict_keys corpus) (update_rule corpus d (rank_of pagerank))"
  have r: "ranks_loop corpus d pagerank (length corpus) (dict_keys corpus) [] = Inr ?new"
    using ranks_loop_eq [of corpus pagerank "dict_keys corpus" "[]" d] assms
    by (simp add: is_dict_def)
  have c: "converged_loop ?new pagerank (dict_keys pagerank)
             = Inr (\<forall>p \<in> set (dict_keys corpus). \<bar>rank_of ?new p - rank_of pagerank p\<bar> \<le> 1 / 1000)"
    using converged_loop_eq [of "dict_keys pagerank" ?new pagerank] assms(2) by simp
  show ?thesis
    by (subst iterate_loop.simps) (simp add: r c Let_def)
qed

section \<open>The update rule is a contraction\<close>

text \<open>
  The contribution of a page is linear in its rank, and the weights with which a page
  contributes to the pages of the corpus sum to at most 1 (to exactly 1 when every link
  target is a key).  So one update shrinks the distance of two rank vectors by the
  factor \<open>d\<close>.
\<close>

lemma contribution_linear:
  "contribution corpus r q p = r q * contribution corpus (\<lambda>_. 1) q p"
  by (simp add: contribution_def split: option.splits)

lemma contribution_nonneg: "0 \<le> contribution corpus (\<lambda>_. 1) q p"
  by (simp add: contribution_def split: option.splits)

lemma column_sum:
  assumes "is_dict corpus" and "map_of corpus q = Some links"
  shows "(\<Sum>p\<in>set (dict_keys corpus). contribution corpus (\<lambda>_. 1) q p)
           = (if links = {||} then 1
              else real (card (set (dict_keys corpus) \<inter> fset links)) / real (fcard links))"
proof (cases "links = {||}")
  case True
  have "corpus \<noteq> []" using assms(2) by auto
  then show ?thesis
    using True assms by (simp add: contribution_def card_keys)
next
  case False
  have "(\<Sum>p\<in>set (dict_keys corpus). contribution corpus (\<lambda>_. 1) q p)
          = (\<Sum>p\<in>set (dict_keys corpus). if p |\<in>| links then 1 / real (fcard links) else 0)"
    using False assms(2) by (intro sum.cong) (simp_all add: contribution_def)
  then show ?thesis
    using False by (simp add: sum_indicator)
qed

lemma column_sum_le:
  assumes "is_dict corpus" and "q \<in> set (dict_keys corpus)"
  shows "(\<Sum>p\<in>set (dict_keys corpus). contribution corpus (\<lambda>_. 1) q p) \<le> 1"
proof -
  from getitem_key [OF assms(2)] obtain links where m: "map_of corpus q = Some links"
    by (auto simp: getitem_map_of)
  have "card (set (dict_keys corpus) \<inter> fset links) \<le> fcard links"
    by (simp add: fcard.rep_eq card_mono)
  then have "links \<noteq> {||} \<Longrightarrow>
      real (card (set (dict_keys corpus) \<inter> fset links)) / real (fcard links) \<le> 1"
    using fcard_pos [of links] by (simp add: divide_le_eq_1)
  then show ?thesis
    by (simp add: column_sum [OF assms(1) m])
qed

lemma column_sum_eq:
  assumes "graph_inv corpus" and "q \<in> set (dict_keys corpus)"
  shows "(\<Sum>p\<in>set (dict_keys corpus). contribution corpus (\<lambda>_. 1) q p) = 1"
proof -
  have d: "is_dict corpus" using assms(1) by (simp add: graph_inv_def)
  from getitem_key [OF assms(2)] obtain links
    where m: "map_of corpus q = Some links" and i: "(q, links) \<in> set corpus"
    by (auto simp: getitem_map_of)
  have "fset links \<subseteq> set (dict_keys corpus)"
    using assms(1) i by (auto simp: graph_inv_def list_all_iff)
  then have c: "card (set (dict_keys corpus) \<inter> fset links) = fcard links"
    by (simp add: fcard.rep_eq Int_absorb1)
  show ?thesis
  proof (cases "links = {||}")
    case True
    then show ?thesis by (simp add: column_sum [OF d m])
  next
    case False
    have "(\<Sum>p\<in>set (dict_keys corpus). contribution corpus (\<lambda>_. 1) q p)
            = real (fcard links) / real (fcard links)"
      using False by (simp only: column_sum [OF d m] c if_False)
    also have "\<dots> = 1"
      using False by simp
    finally show ?thesis .
  qed
qed

lemma update_rule_diff:
  assumes "is_dict corpus"
  shows "update_rule corpus d r p - update_rule corpus d r' p
           = d * (\<Sum>q\<in>set (dict_keys corpus). (r q - r' q) * contribution corpus (\<lambda>_. 1) q p)"
proof -
  have "update_rule corpus d r p - update_rule corpus d r' p
          = d * ((\<Sum>q\<in>set (dict_keys corpus). contribution corpus r q p)
                 - (\<Sum>q\<in>set (dict_keys corpus). contribution corpus r' q p))"
    by (simp add: update_rule_def sum_keys [OF assms] algebra_simps)
  also have "\<dots> = d * (\<Sum>q\<in>set (dict_keys corpus).
                          contribution corpus r q p - contribution corpus r' q p)"
    by (simp add: sum_subtractf)
  also have "\<dots> = d * (\<Sum>q\<in>set (dict_keys corpus).
                          (r q - r' q) * contribution corpus (\<lambda>_. 1) q p)"
    by (subst contribution_linear [of corpus r], subst contribution_linear [of corpus r'])
       (simp add: algebra_simps)
  finally show ?thesis .
qed

lemma update_rule_contracts:
  assumes "is_dict corpus" and "0 \<le> d"
  shows "l1_dist corpus (update_rule corpus d r) (update_rule corpus d r')
           \<le> d * l1_dist corpus r r'"
proof -
  let ?K = "set (dict_keys corpus)"
  let ?w = "contribution corpus (\<lambda>_. 1)"
  have "l1_dist corpus (update_rule corpus d r) (update_rule corpus d r')
          = (\<Sum>p\<in>?K. \<bar>d * (\<Sum>q\<in>?K. (r q - r' q) * ?w q p)\<bar>)"
    by (simp add: l1_dist_def sum_keys [OF assms(1)] update_rule_diff [OF assms(1)])
  also have "\<dots> = d * (\<Sum>p\<in>?K. \<bar>\<Sum>q\<in>?K. (r q - r' q) * ?w q p\<bar>)"
    using assms(2) by (simp add: abs_mult sum_distrib_left [symmetric])
  also have "\<dots> \<le> d * (\<Sum>p\<in>?K. \<Sum>q\<in>?K. \<bar>r q - r' q\<bar> * ?w q p)"
  proof (intro mult_left_mono sum_mono assms(2))
    fix p
    have "\<bar>\<Sum>q\<in>?K. (r q - r' q) * ?w q p\<bar> \<le> (\<Sum>q\<in>?K. \<bar>(r q - r' q) * ?w q p\<bar>)"
      by (rule sum_abs)
    also have "\<dots> = (\<Sum>q\<in>?K. \<bar>r q - r' q\<bar> * ?w q p)"
      by (simp add: abs_mult contribution_nonneg)
    finally show "\<bar>\<Sum>q\<in>?K. (r q - r' q) * ?w q p\<bar> \<le> (\<Sum>q\<in>?K. \<bar>r q - r' q\<bar> * ?w q p)" .
  qed
  also have "(\<Sum>p\<in>?K. \<Sum>q\<in>?K. \<bar>r q - r' q\<bar> * ?w q p)
               = (\<Sum>q\<in>?K. \<bar>r q - r' q\<bar> * (\<Sum>p\<in>?K. ?w q p))"
    by (subst sum.swap) (simp add: sum_distrib_left)
  also have "d * \<dots> \<le> d * (\<Sum>q\<in>?K. \<bar>r q - r' q\<bar> * 1)"
    by (intro mult_left_mono sum_mono assms(2) column_sum_le [OF assms(1)]) simp_all
  finally show ?thesis
    by (simp add: l1_dist_def sum_keys [OF assms(1)])
qed

lemma iterates_Suc: "iterates corpus d (Suc k) = update_rule corpus d (iterates corpus d k)"
  by (simp add: iterates_def)

lemma l1_dist_iterates:
  assumes "is_dict corpus" and "0 \<le> d"
  shows "l1_dist corpus (iterates corpus d (Suc k)) (iterates corpus d k)
           \<le> d ^ k * l1_dist corpus (iterates corpus d 1) (iterates corpus d 0)"
proof (induction k)
  case 0
  then show ?case by simp
next
  case (Suc k)
  have "l1_dist corpus (iterates corpus d (Suc (Suc k))) (iterates corpus d (Suc k))
          \<le> d * l1_dist corpus (iterates corpus d (Suc k)) (iterates corpus d k)"
    unfolding iterates_Suc [of corpus d "Suc k"] iterates_Suc [of corpus d k]
    by (rule update_rule_contracts [OF assms])
  also have "\<dots> \<le> d * (d ^ k * l1_dist corpus (iterates corpus d 1) (iterates corpus d 0))"
    using Suc.IH assms(2) by (rule mult_left_mono)
  finally show ?case by (simp add: mult.assoc)
qed

lemma power_small:
  assumes "0 \<le> d" and "d < 1" and "0 \<le> c"
  shows "\<exists>k. d ^ k * c \<le> (1 / 1000 :: real)"
proof -
  have "(0::real) < 1 / 1000 / (c + 1)"
    using assms(3) by simp
  from real_arch_pow_inv [OF this assms(2)] obtain k where k: "d ^ k < 1 / 1000 / (c + 1)"
    by blast
  have "d ^ k * c \<le> d ^ k * (c + 1)"
    using assms(1) by (simp add: mult_left_mono)
  also have "\<dots> \<le> 1 / 1000"
    using k assms(3) by (simp add: field_simps)
  finally show ?thesis by blast
qed

lemma l1_dist_nonneg: "0 \<le> l1_dist corpus r r'"
  by (auto simp: l1_dist_def intro!: sum_list_nonneg)

lemma change_le_l1_dist:
  assumes "p \<in> set (dict_keys corpus)"
  shows "\<bar>r p - r' p\<bar> \<le> l1_dist corpus r r'"
  unfolding l1_dist_def
  by (rule member_le_sum_list) (use assms in auto)

lemma eventually_converged:
  assumes "is_dict corpus" and "0 \<le> d" and "d < 1"
  shows "\<exists>k. converged_at corpus d k"
proof -
  from power_small [OF assms(2,3) l1_dist_nonneg]
  obtain k where k: "d ^ k * l1_dist corpus (iterates corpus d 1) (iterates corpus d 0) \<le> 1 / 1000"
    by blast
  have "converged_at corpus d k"
    unfolding converged_at_def
  proof
    fix p assume p: "p \<in> set (dict_keys corpus)"
    have "\<bar>iterates corpus d (Suc k) p - iterates corpus d k p\<bar>
            \<le> l1_dist corpus (iterates corpus d (Suc k)) (iterates corpus d k)"
      by (rule change_le_l1_dist [OF p])
    also have "\<dots> \<le> d ^ k * l1_dist corpus (iterates corpus d 1) (iterates corpus d 0)"
      by (rule l1_dist_iterates [OF assms(1,2)])
    finally show "\<bar>iterates corpus d (Suc k) p - iterates corpus d k p\<bar> \<le> 1 / 1000"
      using k by simp
  qed
  then show ?thesis ..
qed

section \<open>The loop of the iterative estimator\<close>

lemma update_rule_cong:
  assumes "\<And>q. q \<in> set (dict_keys corpus) \<Longrightarrow> r q = r' q"
  shows "update_rule corpus d r p = update_rule corpus d r' p"
proof -
  have "map (\<lambda>q. contribution corpus r q p) (dict_keys corpus)
          = map (\<lambda>q. contribution corpus r' q p) (dict_keys corpus)"
    by (rule map_cong [OF refl]) (use assms in \<open>simp add: contribution_def split: option.splits\<close>)
  then show ?thesis
    by (simp only: update_rule_def)
qed

lemma iterate_loop_iterates:
  assumes "is_dict corpus"
  shows "iterate_loop corpus d (length corpus) (table (dict_keys corpus) (iterates corpus d k))
           = (if converged_at corpus d k
              then Some (Inr (table (dict_keys corpus) (iterates corpus d (Suc k))))
              else iterate_loop corpus d (length corpus)
                     (table (dict_keys corpus) (iterates corpus d (Suc k))))"
proof -
  let ?K = "dict_keys corpus"
  let ?old = "table ?K (iterates corpus d k)"
  have u: "update_rule corpus d (rank_of ?old) p = iterates corpus d (Suc k) p" for p
    unfolding iterates_Suc by (rule update_rule_cong) (simp add: rank_of_table)
  then have new: "table ?K (update_rule corpus d (rank_of ?old)) = table ?K (iterates corpus d (Suc k))"
    by (simp add: table_def)
  have c: "(\<forall>p \<in> set ?K. \<bar>rank_of (table ?K (iterates corpus d (Suc k))) p - rank_of ?old p\<bar> \<le> 1 / 1000)
             \<longleftrightarrow> converged_at corpus d k"
    by (simp add: converged_at_def rank_of_table)
  show ?thesis
    using iterate_loop_step [OF assms, of ?old d]
    by (simp only: new Let_def c dict_keys_table')
qed

lemma iterate_pagerank_start:
  "iterate_pagerank corpus d
     = iterate_loop corpus d (length corpus) (table (dict_keys corpus) (iterates corpus d 0))"
  by (simp add: iterate_pagerank_def iterates_def table_def Let_def)

lemma iterate_loop_returns:
  assumes "is_dict corpus" and "converged_at corpus d (j + m)"
  shows "\<exists>k. j \<le> k \<and> converged_at corpus d k \<and> (\<forall>i. j \<le> i \<and> i < k \<longrightarrow> \<not> converged_at corpus d i) \<and>
             iterate_loop corpus d (length corpus) (table (dict_keys corpus) (iterates corpus d j))
               = Some (Inr (table (dict_keys corpus) (iterates corpus d (Suc k))))"
  using assms(2)
proof (induction m arbitrary: j)
  case 0
  then show ?case
    using iterate_loop_iterates [OF assms(1), of d j] by (intro exI [of _ j]) auto
next
  case (Suc m)
  show ?case
  proof (cases "converged_at corpus d j")
    case True
    then show ?thesis
      using iterate_loop_iterates [OF assms(1), of d j] by (intro exI [of _ j]) auto
  next
    case False
    from Suc.prems have "converged_at corpus d (Suc j + m)" by simp
    from Suc.IH [OF this] obtain k where k: "Suc j \<le> k" "converged_at corpus d k"
      "\<forall>i. Suc j \<le> i \<and> i < k \<longrightarrow> \<not> converged_at corpus d i"
      "iterate_loop corpus d (length corpus) (table (dict_keys corpus) (iterates corpus d (Suc j)))
         = Some (Inr (table (dict_keys corpus) (iterates corpus d (Suc k))))"
      by blast
    have "\<forall>i. j \<le> i \<and> i < k \<longrightarrow> \<not> converged_at corpus d i"
      using k(3) False by (metis Suc_leI le_neq_implies_less)
    then show ?thesis
      using k iterate_loop_iterates [OF assms(1), of d j] False
      by (intro exI [of _ k]) auto
  qed
qed

lemma iterate_pagerank_returns:
  assumes "is_dict corpus" and "0 \<le> d" and "d < 1"
  shows "\<exists>k. converged_at corpus d k \<and> (\<forall>i < k. \<not> converged_at corpus d i) \<and>
             iterate_pagerank corpus d
               = Some (Inr (table (dict_keys corpus) (iterates corpus d (Suc k))))"
proof -
  from eventually_converged [OF assms] obtain m where "converged_at corpus d (0 + m)"
    by auto
  from iterate_loop_returns [OF assms(1) this] show ?thesis
    unfolding iterate_pagerank_start by auto
qed

lemma sum_update_rule:
  assumes "graph_inv corpus" and "corpus \<noteq> []"
    and "(\<Sum>p\<leftarrow>dict_keys corpus. r p) = 1"
  shows "(\<Sum>p\<leftarrow>dict_keys corpus. update_rule corpus d r p) = 1"
proof -
  let ?K = "set (dict_keys corpus)"
  let ?w = "contribution corpus (\<lambda>_. 1)"
  have dct: "is_dict corpus" using assms(1) by (simp add: graph_inv_def)
  have N: "real (length corpus) \<noteq> 0" using assms(2) by simp
  have "(\<Sum>p\<in>?K. \<Sum>q\<in>?K. contribution corpus r q p) = (\<Sum>p\<in>?K. \<Sum>q\<in>?K. r q * ?w q p)"
    by (subst contribution_linear) simp
  also have "\<dots> = (\<Sum>q\<in>?K. r q * (\<Sum>p\<in>?K. ?w q p))"
    by (subst sum.swap) (simp add: sum_distrib_left)
  also have "\<dots> = (\<Sum>q\<in>?K. r q)"
    by (intro sum.cong) (simp_all add: column_sum_eq [OF assms(1)])
  also have "\<dots> = 1"
    using assms(3) by (simp add: sum_keys [OF dct])
  finally have s: "(\<Sum>p\<in>?K. \<Sum>q\<in>?K. contribution corpus r q p) = 1" .
  have "(\<Sum>p\<in>?K. update_rule corpus d r p)
          = real (card ?K) * ((1 - d) / real (length corpus))
            + d * (\<Sum>p\<in>?K. \<Sum>q\<in>?K. contribution corpus r q p)"
    by (simp add: update_rule_def sum_keys [OF dct] sum.distrib sum_distrib_left)
  also have "\<dots> = 1"
    using N by (simp add: s card_keys [OF dct])
  finally show ?thesis
    by (simp add: sum_keys [OF dct])
qed

lemma sum_iterates:
  assumes "graph_inv corpus" and "corpus \<noteq> []"
  shows "(\<Sum>p\<leftarrow>dict_keys corpus. iterates corpus d k p) = 1"
proof (induction k)
  case 0
  then show ?case
    using assms(2) by (simp add: iterates_def sum_list_const)
next
  case (Suc k)
  then show ?case
    unfolding iterates_Suc by (rule sum_update_rule [OF assms])
qed


section \<open>Evaluating double-precision arithmetic\<close>

text \<open>
  The rewrite rules that compute a rounding, a set size or a lookup on concrete
  numbers.
\<close>

lemmas fl_eval = round_double_def pack_def scale_round_def rne_def rne_from_def exponent_def
  exp_down.simps exp_up.simps pow2_def float_of_int_def fl_sub_def signed_inf_def int_truediv_def

lemmas set_eval = fcard_finsert_if fcard_fempty

lemmas dict_eval2 = getitem_def setitem_def corpus4_def ranks4_def set_eval

section \<open>Rounding error\<close>

lemma pow2_pos: "0 < pow2 e"
  by (simp add: pow2_def)

lemma pow2_small:
  assumes "e \<le> - 52"
  shows "pow2 e \<le> 1 / 2 ^ 52"
proof -
  have "52 \<le> nat (- e)"
    using assms by simp
  then have "(2::real) ^ 52 \<le> 2 ^ nat (- e)"
    by (intro power_increasing) simp_all
  then have "1 / (2::real) ^ nat (- e) \<le> 1 / 2 ^ 52"
    by (intro divide_left_mono) simp_all
  then show ?thesis
    using assms by (simp add: pow2_def)
qed

lemma exp_down_le: "exp_down x e \<le> e"
proof (induction x e rule: exp_down.induct)
  case (1 x e)
  show ?case
  proof (cases "e \<le> - 1022 \<or> pow2 e \<le> x")
    case True
    then show ?thesis by (subst exp_down.simps) simp
  next
    case False
    then have "exp_down x e = exp_down x (e - 1)"
      by (subst exp_down.simps) simp
    with "1.IH" [OF False] show ?thesis by simp
  qed
qed

lemma exponent_unit: "x \<le> 1 \<Longrightarrow> exponent x \<le> 0"
proof (cases "1 \<le> x")
  case True
  assume "x \<le> 1"
  with True have "x = 1" by simp
  then show ?thesis
    by (simp add: exponent_def exp_up.simps pow2_def)
next
  case False
  then have "exponent x = exp_down x (- 1)"
    by (simp add: exponent_def)
  with exp_down_le [of x "- 1"] show ?thesis by simp
qed

lemma rne_close: "\<bar>real_of_int (rne y) - y\<bar> \<le> 1 / 2"
  unfolding rne_def rne_from_def by (auto simp: abs_le_iff)

lemma round_double_unit:
  assumes "0 \<le> x" and "x \<le> 1"
  shows "\<exists>r. round_double x = Fin r \<and> \<bar>r - x\<bar> \<le> 1 / 2 ^ 53"
proof (cases "x = 0")
  case True
  then show ?thesis by (simp add: round_double_def)
next
  case False
  with assms have pos: "0 < x" by simp
  define u where "u = pow2 (exponent \<bar>x\<bar> - 52)"
  define m where "m = scale_round \<bar>x\<bar> u"
  have u0: "0 < u" by (simp add: u_def pow2_pos)
  have "exponent \<bar>x\<bar> - 52 \<le> - 52"
    using exponent_unit [of "\<bar>x\<bar>"] assms by simp
  from pow2_small [OF this] have u52: "u \<le> 1 / 2 ^ 52"
    by (simp add: u_def)
  have "m - x = (real_of_int (rne (x / u)) - x / u) * u"
    using u0 pos by (simp add: m_def scale_round_def algebra_simps)
  then have "\<bar>m - x\<bar> = \<bar>real_of_int (rne (x / u)) - x / u\<bar> * u"
    using u0 by (simp add: abs_mult)
  also have "\<dots> \<le> 1 / 2 * u"
    using rne_close [of "x / u"] u0 by (intro mult_right_mono) simp_all
  also have "\<dots> \<le> 1 / 2 ^ 53"
    using u52 by simp
  finally have close: "\<bar>m - x\<bar> \<le> 1 / 2 ^ 53" .
  then have "m - x \<le> 1 / 2 ^ 53"
    by (simp only: abs_le_iff)
  moreover have "(1::real) / 2 ^ 53 \<le> 1"
    by simp
  ultimately have "m \<le> 2"
    using assms(2) by linarith
  then have "\<not> pow2 1024 \<le> m"
    by (simp add: pow2_def)
  then have "round_double x = Fin m"
    using pos by (simp add: round_double_def pack_def m_def u_def)
  then show ?thesis using close by blast
qed

section \<open>The iterative estimator in double precision\<close>

text \<open>
  Three passes over \<open>corpus4\<close> with the damping factor \<open>1 - 2 ^ -53\<close> lead from the
  uniform table back to it, and none of them meets the convergence test.
\<close>

lemma corpus1_inv: "graph_inv corpus1"
  by (simp add: graph_inv_def is_dict_def corpus1_def)

lemma corpus1_nonempty: "corpus1 \<noteq> []"
  by (simp add: corpus1_def)

lemma corpus4_keys: "dict_keys corpus4 = [''a.html'', ''b.html'', ''c.html'', ''d.html'']"
  by (simp add: corpus4_def)

lemma corpus4_inv: "graph_inv corpus4"
  by (simp add: graph_inv_def is_dict_def corpus4_def)

lemma ranks4_keys: "dict_keys (ranks4 a b c d) = dict_keys corpus4"
  by (simp add: ranks4_def corpus4_def)

lemma corpus4_length: "length corpus4 = 4"
  by (simp add: corpus4_def)

lemma pass_1:
  "ranks_loop_fl corpus4 (Fin (1 - 1 / 2 ^ 53)) (ranks4 (1 / 4) (1 / 4) (1 / 4) (1 / 4)) 4
     (dict_keys corpus4) []
   = Inr (ranks4 (1 / 2) (1 / 4) (1 / 8) (1 / 8))"
  by (simp add: dict_eval2 fl_eval)

lemma pass_2:
  "ranks_loop_fl corpus4 (Fin (1 - 1 / 2 ^ 53)) (ranks4 (1 / 2) (1 / 4) (1 / 8) (1 / 8)) 4
     (dict_keys corpus4) []
   = Inr (ranks4 (1 / 4) (1 / 2) (1 / 8) (1 / 8))"
  by (simp add: dict_eval2 fl_eval)

lemma pass_3:
  "ranks_loop_fl corpus4 (Fin (1 - 1 / 2 ^ 53)) (ranks4 (1 / 4) (1 / 2) (1 / 8) (1 / 8)) 4
     (dict_keys corpus4) []
   = Inr (ranks4 (1 / 4) (1 / 4) (1 / 4) (1 / 4))"
  by (simp add: dict_eval2 fl_eval)

lemma test_1:
  "converged_loop_fl (ranks4 (1 / 2) (1 / 4) (1 / 8) (1 / 8)) (ranks4 (1 / 4) (1 / 4) (1 / 4) (1 / 4))
     (dict_keys corpus4) = Inr False"
  by (simp add: dict_eval2 fl_eval)

lemma test_2:
  "converged_loop_fl (ranks4 (1 / 4) (1 / 2) (1 / 8) (1 / 8)) (ranks4 (1 / 2) (1 / 4) (1 / 8) (1 / 8))
     (dict_keys corpus4) = Inr False"
  by (simp add: dict_eval2 fl_eval)

lemma test_3:
  "converged_loop_fl (ranks4 (1 / 4) (1 / 4) (1 / 4) (1 / 4)) (ranks4 (1 / 4) (1 / 2) (1 / 8) (1 / 8))
     (dict_keys corpus4) = Inr False"
  by (simp add: dict_eval2 fl_eval)

lemma cycle_never_returns:
  assumes "iterate_loop_fl corpus d N pagerank = Some y"
  shows "\<not> (corpus = corpus4 \<and> d = Fin (1 - 1 / 2 ^ 53) \<and> N = 4 \<and>
            (pagerank = ranks4 (1 / 4) (1 / 4) (1 / 4) (1 / 4) \<or>
             pagerank = ranks4 (1 / 2) (1 / 4) (1 / 8) (1 / 8) \<or>
             pagerank = ranks4 (1 / 4) (1 / 2) (1 / 8) (1 / 8)))"
proof (rule iterate_loop_fl.raw_induct
    [where P = "\<lambda>corpus d N pagerank y.
       \<not> (corpus = corpus4 \<and> d = Fin (1 - 1 / 2 ^ 53) \<and> N = 4 \<and>
            (pagerank = ranks4 (1 / 4) (1 / 4) (1 / 4) (1 / 4) \<or>
             pagerank = ranks4 (1 / 2) (1 / 4) (1 / 8) (1 / 8) \<or>
             pagerank = ranks4 (1 / 4) (1 / 2) (1 / 8) (1 / 8)))", OF _ assms])
  fix loop :: "corpus \<Rightarrow> pyfloat \<Rightarrow> nat \<Rightarrow> pyfloat dict \<Rightarrow> (py_error + pyfloat dict) option"
  fix corpus d N pagerank y
  assume IH: "\<And>corpus d N pagerank y. loop corpus d N pagerank = Some y \<Longrightarrow>
       \<not> (corpus = corpus4 \<and> d = Fin (1 - 1 / 2 ^ 53) \<and> N = 4 \<and>
            (pagerank = ranks4 (1 / 4) (1 / 4) (1 / 4) (1 / 4) \<or>
             pagerank = ranks4 (1 / 2) (1 / 4) (1 / 8) (1 / 8) \<or>
             pagerank = ranks4 (1 / 4) (1 / 2) (1 / 8) (1 / 8)))"
  assume body: "(case ranks_loop_fl corpus d pagerank N (dict_keys corpus) [] of
        Inl e \<Rightarrow> Some (Inl e)
      | Inr new_ranks \<Rightarrow>
          (case converged_loop_fl new_ranks pagerank (dict_keys pagerank) of
             Inl e \<Rightarrow> Some (Inl e)
           | Inr converged \<Rightarrow>
               if converged then Some (Inr new_ranks)
               else loop corpus d N new_ranks)) = Some y"
  show "\<not> (corpus = corpus4 \<and> d = Fin (1 - 1 / 2 ^ 53) \<and> N = 4 \<and>
            (pagerank = ranks4 (1 / 4) (1 / 4) (1 / 4) (1 / 4) \<or>
             pagerank = ranks4 (1 / 2) (1 / 4) (1 / 8) (1 / 8) \<or>
             pagerank = ranks4 (1 / 4) (1 / 2) (1 / 8) (1 / 8)))"
  proof
    assume a: "corpus = corpus4 \<and> d = Fin (1 - 1 / 2 ^ 53) \<and> N = 4 \<and>
            (pagerank = ranks4 (1 / 4) (1 / 4) (1 / 4) (1 / 4) \<or>
             pagerank = ranks4 (1 / 2) (1 / 4) (1 / 8) (1 / 8) \<or>
             pagerank = ranks4 (1 / 4) (1 / 2) (1 / 8) (1 / 8))"
    then consider
        "pagerank = ranks4 (1 / 4) (1 / 4) (1 / 4) (1 / 4)"
      | "pagerank = ranks4 (1 / 2) (1 / 4) (1 / 8) (1 / 8)"
      | "pagerank = ranks4 (1 / 4) (1 / 2) (1 / 8) (1 / 8)"
      by blast
    then show False
    proof cases
      case 1
      with a body have "loop corpus4 (Fin (1 - 1 / 2 ^ 53)) 4 (ranks4 (1 / 2) (1 / 4) (1 / 8) (1 / 8)) = Some y"
        by (simp only: pass_1 test_1 ranks4_keys sum.case if_False)
      from IH [OF this] show False by simp
    next
      case 2
      with a body have "loop corpus4 (Fin (1 - 1 / 2 ^ 53)) 4 (ranks4 (1 / 4) (1 / 2) (1 / 8) (1 / 8)) = Some y"
        by (simp only: pass_2 test_2 ranks4_keys sum.case if_False)
      from IH [OF this] show False by simp
    next
      case 3
      with a body have "loop corpus4 (Fin (1 - 1 / 2 ^ 53)) 4 (ranks4 (1 / 4) (1 / 4) (1 / 4) (1 / 4)) = Some y"
        by (simp only: pass_3 test_3 ranks4_keys sum.case if_False)
      from IH [OF this] show False by simp
    qed
  qed
qed

lemma iterate_pagerank_fl_cycle:
  "iterate_pagerank_fl corpus4 (Fin (1 - 1 / 2 ^ 53)) = None"
proof -
  have "int_truediv 1 4 = Fin (1 / 4)"
    by (simp add: fl_eval)
  then have s: "iterate_pagerank_fl corpus4 (Fin (1 - 1 / 2 ^ 53))
         = iterate_loop_fl corpus4 (Fin (1 - 1 / 2 ^ 53)) 4 (ranks4 (1 / 4) (1 / 4) (1 / 4) (1 / 4))"
    by (simp add: iterate_pagerank_fl_def corpus4_length corpus4_keys ranks4_def)
  show ?thesis
  proof (cases "iterate_pagerank_fl corpus4 (Fin (1 - 1 / 2 ^ 53))")
    case None
    then show ?thesis .
  next
    case (Some y)
    then show ?thesis
      using cycle_never_returns [of corpus4 "Fin (1 - 1 / 2 ^ 53)" 4
          "ranks4 (1 / 4) (1 / 4) (1 / 4) (1 / 4)" y]
      unfolding s by simp
  qed
qed

lemma iterate_loop_fl_exit:
  assumes "iterate_loop_fl corpus d N pagerank = Some y"
  shows "\<forall>ranks. y = Inr ranks \<longrightarrow>
           (\<exists>prev. ranks_loop_fl corpus d prev N (dict_keys corpus) [] = Inr ranks \<and>
                   converged_loop_fl ranks prev (dict_keys prev) = Inr True)"
proof (rule iterate_loop_fl.raw_induct
    [where P = "\<lambda>corpus d N pagerank y. \<forall>ranks. y = Inr ranks \<longrightarrow>
           (\<exists>prev. ranks_loop_fl corpus d prev N (dict_keys corpus) [] = Inr ranks \<and>
                   converged_loop_fl ranks prev (dict_keys prev) = Inr True)", OF _ assms])
  fix loop :: "corpus \<Rightarrow> pyfloat \<Rightarrow> nat \<Rightarrow> pyfloat dict \<Rightarrow> (py_error + pyfloat dict) option"
  fix corpus d N pagerank y
  assume IH: "\<And>corpus d N pagerank y. loop corpus d N pagerank = Some y \<Longrightarrow>
       \<forall>ranks. y = Inr ranks \<longrightarrow>
           (\<exists>prev. ranks_loop_fl corpus d prev N (dict_keys corpus) [] = Inr ranks \<and>
                   converged_loop_fl ranks prev (dict_keys prev) = Inr True)"
  assume body: "(case ranks_loop_fl corpus d pagerank N (dict_keys corpus) [] of
        Inl e \<Rightarrow> Some (Inl e)
      | Inr new_ranks \<Rightarrow>
          (case converged_loop_fl new_ranks pagerank (dict_keys pagerank) of
             Inl e \<Rightarrow> Some (Inl e)
           | Inr converged \<Rightarrow>
               if converged then Some (Inr new_ranks)
               else loop corpus d N new_ranks)) = Some y"
  show "\<forall>ranks. y = Inr ranks \<longrightarrow>
           (\<exists>prev. ranks_loop_fl corpus d prev N (dict_keys corpus) [] = Inr ranks \<and>
                   converged_loop_fl ranks prev (dict_keys prev) = Inr True)"
  proof (cases "ranks_loop_fl corpus d pagerank N (dict_keys corpus) []")
    case (Inl e)
    then show ?thesis using body by auto
  next
    case (Inr new_ranks)
    note r = this
    show ?thesis
    proof (cases "converged_loop_fl new_ranks pagerank (dict_keys pagerank)")
      case (Inl e)
      then show ?thesis using body r by auto
    next
      case (Inr converged)
      show ?thesis
      proof (cases converged)
        case True
        then show ?thesis using body r Inr by auto
      next
        case False
        then have "loop corpus d N new_ranks = Some y"
          using body r Inr by simp
        from IH [OF this] show ?thesis .
      qed
    qed
  qed
qed

lemma converged_loop_fl_True:
  assumes "converged_loop_fl new_ranks pagerank ps = Inr True" and "p \<in> set ps"
  shows "\<exists>new old. getitem new_ranks p = Inr new \<and> getitem pagerank p = Inr old \<and>
                   \<not> fl_less (round_double (1 / 1000)) (fl_abs (fl_sub new old))"
  using assms
  by (induction ps) (auto split: sum.splits if_splits)


lemma iterate_pagerank_fl_single:
  "iterate_pagerank_fl corpus1 (Fin (1 / 2)) = Some (Inr [(''1.html'', Fin 1)])"
  unfolding iterate_pagerank_fl_def
  by (subst iterate_loop_fl.simps) (simp add: corpus1_def getitem_def setitem_def fl_eval)

section \<open>Claims about the iterative estimator\<close>

text \<open>
  C1.  For a non-empty graph and a damping factor \<open>d\<close> in \<open>(0, 1)\<close>, one pass of the loops
  of \<^verbatim>\<open>iterate_pagerank\<close> turns a rank table into the table of the update rule
  \<open>(1 - d) / N + d * (\<Sum>q. contribution q p)\<close>, computed for every page from the previous
  table only; the run starts from the rank \<open>1 / N\<close> for every page, and what it returns
  is the result of applying the update rule to that start some \<open>k + 1\<close> times.
\<close>

theorem iterate_pagerank_update_rule:
  assumes "is_dict corpus" and "corpus \<noteq> []" and "0 < d" and "d < 1"
  shows "(\<forall>pagerank. dict_keys pagerank = dict_keys corpus \<longrightarrow>
            ranks_loop corpus d pagerank (length corpus) (dict_keys corpus) []
              = Inr (table (dict_keys corpus) (update_rule corpus d (rank_of pagerank))))
         \<and> (\<exists>k. iterate_pagerank corpus d
                   = Some (Inr (table (dict_keys corpus)
                        ((update_rule corpus d ^^ Suc k) (\<lambda>p. 1 / real (length corpus))))))"
proof
  show "\<forall>pagerank. dict_keys pagerank = dict_keys corpus \<longrightarrow>
            ranks_loop corpus d pagerank (length corpus) (dict_keys corpus) []
              = Inr (table (dict_keys corpus) (update_rule corpus d (rank_of pagerank)))"
    using assms(1) ranks_loop_eq [of corpus _ "dict_keys corpus" "[]" d]
    by (simp add: is_dict_def)
  from iterate_pagerank_returns [OF assms(1) less_imp_le [OF assms(3)] assms(4)]
  show "\<exists>k. iterate_pagerank corpus d
                   = Some (Inr (table (dict_keys corpus)
                        ((update_rule corpus d ^^ Suc k) (\<lambda>p. 1 / real (length corpus)))))"
    unfolding iterates_def by blast
qed

theorem iterate_pagerank_update_rule_witness:
  "is_dict corpus0 \<and> corpus0 \<noteq> [] \<and> (0::real) < 85 / 100 \<and> (85 / 100 :: real) < 1
   \<and> dict_keys (table (dict_keys corpus0) (\<lambda>p. 1 / 3 :: real)) = dict_keys corpus0
   \<and> ranks_loop corpus0 (85 / 100) (table (dict_keys corpus0) (\<lambda>p. 1 / 3))
         (length corpus0) (dict_keys corpus0) []
       = Inr (table (dict_keys corpus0)
           (update_rule corpus0 (85 / 100) (rank_of (table (dict_keys corpus0) (\<lambda>p. 1 / 3)))))
   \<and> (\<exists>k. iterate_pagerank corpus0 (85 / 100)
             = Some (Inr (table (dict_keys corpus0)
                  ((update_rule corpus0 (85 / 100) ^^ Suc k) (\<lambda>p. 1 / real (length corpus0))))))"
proof -
  have h3: "(0::real) < 85 / 100" and h4: "(85 / 100 :: real) < 1"
    by simp_all
  have h5: "dict_keys (table (dict_keys corpus0) (\<lambda>p. 1 / 3 :: real)) = dict_keys corpus0"
    by simp
  from iterate_pagerank_update_rule [OF corpus0_dict corpus0_nonempty h3 h4]
    corpus0_dict corpus0_nonempty h3 h4 h5
  show ?thesis
    by blast
qed

text \<open>
  C3.  For a non-empty graph and a damping factor \<open>d\<close> in \<open>(0, 1)\<close>, \<^verbatim>\<open>iterate_pagerank\<close> is
  its loop run from the uniform table, and from any current rank table over the pages
  of the graph the loop computes the new ranks and compares them with the current ones:
  if the absolute change of every page is at most \<open>0.001\<close> it stops and returns the new
  ranks, and otherwise it goes on with the new ranks as the current ones.
\<close>

theorem iterate_loop_convergence_test:
  assumes "is_dict corpus" and "corpus \<noteq> []" and "0 < d" and "d < 1"
    and "dict_keys pagerank = dict_keys corpus"
  shows "iterate_pagerank corpus d
           = iterate_loop corpus d (length corpus)
               (table (dict_keys corpus) (\<lambda>p. 1 / real (length corpus)))
         \<and> (\<exists>new_ranks.
               ranks_loop corpus d pagerank (length corpus) (dict_keys corpus) [] = Inr new_ranks \<and>
               dict_keys new_ranks = dict_keys corpus \<and>
               iterate_loop corpus d (length corpus) pagerank
                 = (if \<forall>p \<in> set (dict_keys corpus).
                         \<bar>rank_of new_ranks p - rank_of pagerank p\<bar> \<le> 1 / 1000
                    then Some (Inr new_ranks)
                    else iterate_loop corpus d (length corpus) new_ranks))"
proof -
  let ?new = "table (dict_keys corpus) (update_rule corpus d (rank_of pagerank))"
  have "ranks_loop corpus d pagerank (length corpus) (dict_keys corpus) [] = Inr ?new"
    using assms(1,5) ranks_loop_eq [of corpus pagerank "dict_keys corpus" "[]" d]
    by (simp add: is_dict_def)
  moreover have "dict_keys ?new = dict_keys corpus"
    by simp
  moreover have "iterate_loop corpus d (length corpus) pagerank
             = (if \<forall>p \<in> set (dict_keys corpus). \<bar>rank_of ?new p - rank_of pagerank p\<bar> \<le> 1 / 1000
                then Some (Inr ?new)
                else iterate_loop corpus d (length corpus) ?new)"
    using iterate_loop_step [OF assms(1,5), of d] by (simp add: Let_def)
  moreover have "iterate_pagerank corpus d
           = iterate_loop corpus d (length corpus)
               (table (dict_keys corpus) (\<lambda>p. 1 / real (length corpus)))"
    by (simp add: iterate_pagerank_def table_def Let_def)
  ultimately show ?thesis by blast
qed

theorem iterate_loop_convergence_test_witness:
  "is_dict corpus0 \<and> corpus0 \<noteq> [] \<and> (0::real) < 85 / 100 \<and> (85 / 100 :: real) < 1
   \<and> dict_keys (table (dict_keys corpus0) (\<lambda>p. 1 / 3 :: real)) = dict_keys corpus0
   \<and> iterate_pagerank corpus0 (85 / 100)
       = iterate_loop corpus0 (85 / 100) (length corpus0)
           (table (dict_keys corpus0) (\<lambda>p. 1 / real (length corpus0)))
   \<and> (\<exists>new_ranks.
         ranks_loop corpus0 (85 / 100) (table (dict_keys corpus0) (\<lambda>p. 1 / 3))
             (length corpus0) (dict_keys corpus0) [] = Inr new_ranks \<and>
         dict_keys new_ranks = dict_keys corpus0 \<and>
         iterate_loop corpus0 (85 / 100) (length corpus0) (table (dict_keys corpus0) (\<lambda>p. 1 / 3))
           = (if \<forall>p \<in> set (dict_keys corpus0).
                   \<bar>rank_of new_ranks p - rank_of (table (dict_keys corpus0) (\<lambda>p. 1 / 3)) p\<bar>
                     \<le> 1 / 1000
              then Some (Inr new_ranks)
              else iterate_loop corpus0 (85 / 100) (length corpus0) new_ranks))"
proof -
  have h3: "(0::real) < 85 / 100" and h4: "(85 / 100 :: real) < 1"
    by simp_all
  have h5: "dict_keys (table (dict_keys corpus0) (\<lambda>p. 1 / 3 :: real)) = dict_keys corpus0"
    by simp
  from iterate_loop_convergence_test [OF corpus0_dict corpus0_nonempty h3 h4 h5]
    corpus0_dict corpus0_nonempty h3 h4 h5
  show ?thesis
    by blast
qed

text \<open>
  C9, as stated, for the floats of the program: the loop terminates for every graph
  that satisfies the invariants and every damping factor in \<open>(0, 1)\<close>.  It does not: for
  the four pages of \<open>corpus4\<close> and the damping factor \<open>1 - 2 ^ -53\<close>, the largest double
  below 1, the third pass returns to the uniform table and no pass meets the
  convergence test, so the run never returns.
\<close>

theorem iterate_pagerank_cycle_counterexample:
  "graph_inv corpus4 \<and> corpus4 \<noteq> [] \<and> (0::real) < 1 - 1 / 2 ^ 53 \<and> (1 - 1 / 2 ^ 53 :: real) < 1
   \<and> round_double (1 - 1 / 2 ^ 53) = Fin (1 - 1 / 2 ^ 53)
   \<and> iterate_pagerank_fl corpus4 (Fin (1 - 1 / 2 ^ 53)) = None"
proof -
  have "round_double (1 - 1 / 2 ^ 53) = Fin (1 - 1 / 2 ^ 53)"
    by (simp add: fl_eval)
  moreover have "corpus4 \<noteq> []"
    by (simp add: corpus4_def)
  ultimately show ?thesis
    using corpus4_inv iterate_pagerank_fl_cycle by simp
qed

text \<open>
  C9, amended.  The loop has no iteration bound.  In exact arithmetic it terminates for
  every non-empty graph that satisfies the invariants and every damping factor \<open>d\<close> in
  \<open>(0, 1)\<close>: there is a first index \<open>k\<close> at which every page changes by at most \<open>0.001\<close>
  from rank vector \<open>k\<close> to rank vector \<open>k + 1\<close>, and the run returns rank vector \<open>k + 1\<close>.
  In double precision the run need not return; when it returns a rank table, that table
  comes from a pass that met the convergence test against the table before it.
\<close>

theorem iterate_pagerank_termination:
  assumes "graph_inv corpus" and "corpus \<noteq> []" and "0 < d" and "d < 1"
  shows "(\<exists>k. converged_at corpus d k \<and> (\<forall>i < k. \<not> converged_at corpus d i) \<and>
              iterate_pagerank corpus d
                = Some (Inr (table (dict_keys corpus) (iterates corpus d (Suc k)))))
         \<and> (\<forall>ranks. iterate_pagerank_fl corpus d' = Some (Inr ranks) \<longrightarrow>
              (\<exists>prev.
                 ranks_loop_fl corpus d' prev (length corpus) (dict_keys corpus) [] = Inr ranks \<and>
                 converged_loop_fl ranks prev (dict_keys prev) = Inr True))"
proof
  have "is_dict corpus"
    using assms(1) by (simp add: graph_inv_def)
  from iterate_pagerank_returns [OF this less_imp_le [OF assms(3)] assms(4)]
  show "\<exists>k. converged_at corpus d k \<and> (\<forall>i < k. \<not> converged_at corpus d i) \<and>
              iterate_pagerank corpus d
                = Some (Inr (table (dict_keys corpus) (iterates corpus d (Suc k))))" .
  show "\<forall>ranks. iterate_pagerank_fl corpus d' = Some (Inr ranks) \<longrightarrow>
              (\<exists>prev.
                 ranks_loop_fl corpus d' prev (length corpus) (dict_keys corpus) [] = Inr ranks \<and>
                 converged_loop_fl ranks prev (dict_keys prev) = Inr True)"
    using iterate_loop_fl_exit [of corpus d' "length corpus"]
    unfolding iterate_pagerank_fl_def by blast
qed

theorem iterate_pagerank_termination_witness:
  "graph_inv corpus1 \<and> corpus1 \<noteq> [] \<and> (0::real) < 1 / 2 \<and> (1 / 2 :: real) < 1
   \<and> (\<exists>k. converged_at corpus1 (1 / 2) k \<and> (\<forall>i < k. \<not> converged_at corpus1 (1 / 2) i) \<and>
            iterate_pagerank corpus1 (1 / 2)
              = Some (Inr (table (dict_keys corpus1) (iterates corpus1 (1 / 2) (Suc k)))))
   \<and> iterate_pagerank_fl corpus1 (Fin (1 / 2)) = Some (Inr [(''1.html'', Fin 1)])
   \<and> (\<exists>prev.
         ranks_loop_fl corpus1 (Fin (1 / 2)) prev (length corpus1) (dict_keys corpus1) []
           = Inr [(''1.html'', Fin 1)] \<and>
         converged_loop_fl [(''1.html'', Fin 1)] prev (dict_keys prev) = Inr True)"
proof -
  have h3: "(0::real) < 1 / 2" and h4: "(1 / 2 :: real) < 1"
    by simp_all
  from iterate_pagerank_termination [OF corpus1_inv corpus1_nonempty h3 h4, of "Fin (1 / 2)"]
    iterate_pagerank_fl_single corpus1_inv corpus1_nonempty h3 h4
  show ?thesis
    by blast
qed

text \<open>
  C7.  For a non-empty graph that satisfies the invariants and a damping factor \<open>d\<close> in
  \<open>(0, 1)\<close>, \<^verbatim>\<open>iterate_pagerank\<close> returns a rank table whose values sum to 1, hence to
  1 within the tolerance \<open>0.001\<close>.
\<close>

theorem iterate_pagerank_sums_to_one:
  assumes "graph_inv corpus" and "corpus \<noteq> []" and "0 < d" and "d < 1"
  shows "\<exists>ranks. iterate_pagerank corpus d = Some (Inr ranks) \<and>
                 sum_list (dict_values ranks) = 1 \<and>
                 \<bar>sum_list (dict_values ranks) - 1\<bar> \<le> 1 / 1000"
proof -
  have "is_dict corpus"
    using assms(1) by (simp add: graph_inv_def)
  from iterate_pagerank_returns [OF this less_imp_le [OF assms(3)] assms(4)]
  obtain k where k: "iterate_pagerank corpus d
      = Some (Inr (table (dict_keys corpus) (iterates corpus d (Suc k))))"
    by blast
  have "sum_list (dict_values (table (dict_keys corpus) (iterates corpus d (Suc k)))) = 1"
    using sum_iterates [OF assms(1,2), of d "Suc k"] by (simp add: table_def)
  then show ?thesis
    using k by simp
qed

theorem iterate_pagerank_sums_to_one_witness:
  "graph_inv corpus0 \<and> corpus0 \<noteq> [] \<and> (0::real) < 85 / 100 \<and> (85 / 100 :: real) < 1
   \<and> (\<exists>ranks. iterate_pagerank corpus0 (85 / 100) = Some (Inr ranks) \<and>
                sum_list (dict_values ranks) = 1 \<and>
                \<bar>sum_list (dict_values ranks) - 1\<bar> \<le> 1 / 1000)"
proof -
  have h3: "(0::real) < 85 / 100" and h4: "(85 / 100 :: real) < 1"
    by simp_all
  from iterate_pagerank_sums_to_one [OF corpus0_inv corpus0_nonempty h3 h4]
    corpus0_inv corpus0_nonempty h3 h4
  show ?thesis
    by blast
qed


section \<open>The weighted choice of the library\<close>

text \<open>
  The binary search stays between its bounds; on the running sums of non-negative
  weights it finds the index whose interval of cumulative weight contains \<open>u * total\<close>,
  so a uniform \<open>u\<close> selects index \<open>j\<close> with probability \<open>weights ! j / total\<close>.
\<close>

lemma bisect_bounds: "lo \<le> hi \<Longrightarrow> lo \<le> bisect a x lo hi \<and> bisect a x lo hi \<le> hi"
proof (induction a x lo hi rule: bisect.induct)
  case (1 a x lo hi)
  show ?case
  proof (cases "lo < hi")
    case True
    let ?mid = "(lo + hi) div 2"
    have m: "lo \<le> ?mid" "?mid < hi" using True by auto
    show ?thesis
    proof (cases "x < a ! ?mid")
      case T2: True
      from "1.IH"(1) [OF True refl T2] m have "lo \<le> bisect a x lo ?mid \<and> bisect a x lo ?mid \<le> ?mid"
        by simp
      moreover have "bisect a x lo hi = bisect a x lo ?mid"
        using True T2 by (subst bisect.simps) (simp add: Let_def)
      ultimately show ?thesis
        using m by simp
    next
      case F2: False
      from "1.IH"(2) [OF True refl F2] m
      have "?mid + 1 \<le> bisect a x (?mid + 1) hi \<and> bisect a x (?mid + 1) hi \<le> hi"
        by simp
      moreover have "bisect a x lo hi = bisect a x (?mid + 1) hi"
        using True F2 by (subst bisect.simps) (simp add: Let_def)
      ultimately show ?thesis
        using m by simp
    qed
  next
    case False
    then have "bisect a x lo hi = lo"
      by (subst bisect.simps) simp
    then show ?thesis using "1.prems" by simp
  qed
qed

lemma length_accumulate_from [simp]: "length (accumulate_from acc ws) = length ws"
  by (induction ws arbitrary: acc) simp_all

lemma accumulate_from_Nil [simp]: "accumulate_from acc ws = [] \<longleftrightarrow> ws = []"
  by (cases ws) simp_all

lemma last_accumulate_from: "ws \<noteq> [] \<Longrightarrow> last (accumulate_from acc ws) = acc + sum_list ws"
  by (induction ws arbitrary: acc) (auto simp: algebra_simps)

lemma accumulate_from_nth:
  "j < length ws \<Longrightarrow> accumulate_from acc ws ! j = acc + sum_list (take (Suc j) ws)"
proof (induction ws arbitrary: acc j)
  case Nil
  then show ?case by simp
next
  case (Cons w ws)
  then show ?case by (cases j) (simp_all add: algebra_simps)
qed

lemma sum_list_take_mono:
  assumes "\<forall>w \<in> set ws. 0 \<le> (w::real)" and "i \<le> j"
  shows "sum_list (take i ws) \<le> sum_list (take j ws)"
  using assms
proof (induction ws arbitrary: i j)
  case Nil
  then show ?case by simp
next
  case (Cons w ws)
  show ?case
  proof (cases i)
    case 0
    have "\<forall>x \<in> set (take j (w # ws)). 0 \<le> x"
      using Cons.prems(1) by (meson in_set_takeD)
    then show ?thesis
      using 0 by (simp add: sum_list_nonneg del: take_Cons')
  next
    case (Suc i')
    then obtain j' where j: "j = Suc j'" and "i' \<le> j'"
      using Cons.prems(2) by (cases j) auto
    then show ?thesis
      using Cons.IH [of i' j'] Cons.prems(1) Suc by simp
  qed
qed

lemma bisect_sorted:
  assumes "\<And>i j. i \<le> j \<Longrightarrow> j < length a \<Longrightarrow> a ! i \<le> a ! j"
    and "lo \<le> hi" and "hi \<le> length a"
  shows "(\<forall>j. lo \<le> j \<and> j < bisect a x lo hi \<longrightarrow> a ! j \<le> x)
         \<and> (\<forall>j. bisect a x lo hi \<le> j \<and> j < hi \<longrightarrow> x < a ! j)"
  using assms
proof (induction a x lo hi rule: bisect.induct)
  case (1 a x lo hi)
  note mono = "1.prems"(1)
  show ?case
  proof (cases "lo < hi")
    case False
    then have "bisect a x lo hi = lo"
      by (subst bisect.simps) simp
    then show ?thesis using False "1.prems"(2) by simp
  next
    case True
    let ?mid = "(lo + hi) div 2"
    have m: "lo \<le> ?mid" "?mid < hi" "?mid < length a"
      using True "1.prems"(3) by auto
    show ?thesis
    proof (cases "x < a ! ?mid")
      case T2: True
      have eq: "bisect a x lo hi = bisect a x lo ?mid"
        using True T2 by (subst bisect.simps) (simp add: Let_def)
      from "1.IH"(1) [OF True refl T2 mono] m
      have ih: "(\<forall>j. lo \<le> j \<and> j < bisect a x lo ?mid \<longrightarrow> a ! j \<le> x)
         \<and> (\<forall>j. bisect a x lo ?mid \<le> j \<and> j < ?mid \<longrightarrow> x < a ! j)"
        by simp
      have "x < a ! j" if "?mid \<le> j" "j < hi" for j
      proof -
        have "a ! ?mid \<le> a ! j"
          using that "1.prems"(3) by (intro mono) simp_all
        then show ?thesis using T2 by simp
      qed
      then show ?thesis
        unfolding eq using ih by (meson not_le_imp_less)
    next
      case F2: False
      have eq: "bisect a x lo hi = bisect a x (?mid + 1) hi"
        using True F2 by (subst bisect.simps) (simp add: Let_def)
      from "1.IH"(2) [OF True refl F2 mono] m "1.prems"(3)
      have ih: "(\<forall>j. ?mid + 1 \<le> j \<and> j < bisect a x (?mid + 1) hi \<longrightarrow> a ! j \<le> x)
         \<and> (\<forall>j. bisect a x (?mid + 1) hi \<le> j \<and> j < hi \<longrightarrow> x < a ! j)"
        by simp
      have "a ! j \<le> x" if "j \<le> ?mid" for j
      proof -
        have "a ! j \<le> a ! ?mid"
          using that m(3) by (intro mono) simp_all
        then show ?thesis using F2 by simp
      qed
      then show ?thesis
        unfolding eq using ih by (metis Suc_eq_plus1 not_less_eq_eq)
    qed
  qed
qed

lemma choices_member:
  assumes "choices population weights u = Inr x"
  shows "x \<in> set population"
proof -
  let ?n = "length population"
  let ?cum = "accumulate weights"
  from assms have n: "length ?cum = ?n" "?cum \<noteq> []"
    and x: "x = population ! bisect ?cum (u * last ?cum) 0 (?n - 1)"
    by (auto simp: choices_def Let_def split: if_splits)
  from n have "0 < ?n" by auto
  moreover have "bisect ?cum (u * last ?cum) 0 (?n - 1) \<le> ?n - 1"
    using bisect_bounds [of 0 "?n - 1"] by simp
  ultimately have "bisect ?cum (u * last ?cum) 0 (?n - 1) < ?n"
    by arith
  then show ?thesis
    unfolding x by (rule nth_mem)
qed

lemma choices_returns:
  assumes "length weights = length population" and "population \<noteq> []" and "0 < sum_list weights"
  shows "\<exists>x. choices population weights u = Inr x"
proof -
  have "weights \<noteq> []" using assms(1,2) by auto
  then have "last (accumulate weights) = sum_list weights"
    by (simp add: accumulate_def last_accumulate_from)
  then show ?thesis
    using assms \<open>weights \<noteq> []\<close> by (simp add: choices_def Let_def accumulate_def)
qed

lemma choices_inverse_cdf:
  assumes "length weights = length population" and "\<forall>w \<in> set weights. 0 \<le> w"
    and "0 < sum_list weights" and "0 \<le> u" and "u < 1"
  shows "\<exists>j < length population.
           choices population weights u = Inr (population ! j) \<and>
           sum_list (take j weights) \<le> u * sum_list weights \<and>
           u * sum_list weights < sum_list (take (Suc j) weights)"
proof -
  let ?n = "length population"
  let ?cum = "accumulate weights"
  let ?x = "u * sum_list weights"
  let ?r = "bisect ?cum ?x 0 (?n - 1)"
  have ne: "weights \<noteq> []" using assms(3) by auto
  then have n: "0 < ?n" using assms(1) by auto
  have len: "length ?cum = ?n"
    by (simp add: accumulate_def assms(1))
  have nth: "?cum ! j = sum_list (take (Suc j) weights)" if "j < ?n" for j
    using that assms(1) by (simp add: accumulate_def accumulate_from_nth)
  have last: "last ?cum = sum_list weights"
    using ne by (simp add: accumulate_def last_accumulate_from)
  have mono: "?cum ! i \<le> ?cum ! j" if "i \<le> j" "j < length ?cum" for i j
    using that len by (simp add: nth sum_list_take_mono [OF assms(2)])
  have r: "?r \<le> ?n - 1"
    using bisect_bounds [of 0 "?n - 1"] by simp
  then have rn: "?r < ?n" using n by arith
  from bisect_sorted [OF mono, of 0 "?n - 1" ?x] len
  have lower: "\<forall>j. j < ?r \<longrightarrow> ?cum ! j \<le> ?x"
    and upper: "\<forall>j. ?r \<le> j \<and> j < ?n - 1 \<longrightarrow> ?x < ?cum ! j"
    by simp_all
  have c: "choices population weights u = Inr (population ! ?r)"
    using n assms(3) len last by (auto simp: choices_def Let_def)
  have lo: "sum_list (take ?r weights) \<le> ?x"
  proof (cases ?r)
    case 0
    then show ?thesis using assms(3,4) by simp
  next
    case (Suc r')
    then have "?cum ! r' \<le> ?x" using lower by simp
    then show ?thesis using Suc rn by (simp add: nth)
  qed
  have hi: "?x < sum_list (take (Suc ?r) weights)"
  proof (cases "?r < ?n - 1")
    case True
    then have "?x < ?cum ! ?r" using upper by simp
    then show ?thesis using rn by (simp add: nth)
  next
    case False
    then have "Suc ?r = ?n" using r n by arith
    then have "take (Suc ?r) weights = weights" using assms(1) by simp
    then show ?thesis using assms(3,5) by simp
  qed
  show ?thesis
    using rn c lo hi by blast
qed

section \<open>The walk of the sampling estimator\<close>

lemma next_page_returns:
  assumes "page \<in> set (dict_keys corpus)" and "0 < d" and "d < 1"
  shows "\<exists>probs x. transition_model corpus page d = Inr probs \<and>
                   choices (dict_keys probs) (dict_values probs) u = Inr x"
proof -
  from transition_model_positive [OF assms] obtain probs
    where p: "transition_model corpus page d = Inr probs" and w: "\<forall>w \<in> set (dict_values probs). 0 < w"
    by blast
  have k: "dict_keys probs = dict_keys corpus" and v: "length (dict_values probs) = length corpus"
    using transition_model_keys [OF p] by simp_all
  have ne: "dict_keys probs \<noteq> []" using assms(1) k by auto
  then have "dict_values probs \<noteq> []" using v k
    by (metis length_0_conv length_dict_keys)
  from sum_list_pos' [OF this w] have "0 < sum_list (dict_values probs)" .
  from choices_returns [OF _ ne this, of u] v k show ?thesis
    using p by (metis length_dict_keys)
qed

lemma next_page_inverse_cdf:
  assumes "page \<in> set (dict_keys corpus)" and "0 < d" and "d < 1" and "0 \<le> u" and "u < 1"
  shows "\<exists>probs j.
           transition_model corpus page d = Inr probs \<and> j < length corpus \<and>
           choices (dict_keys probs) (dict_values probs) u = Inr (dict_keys corpus ! j) \<and>
           sum_list (take j (dict_values probs)) \<le> u * sum_list (dict_values probs) \<and>
           u * sum_list (dict_values probs) < sum_list (take (Suc j) (dict_values probs))"
proof -
  from transition_model_positive [OF assms(1,2,3)] obtain probs
    where p: "transition_model corpus page d = Inr probs"
      and w: "\<forall>w \<in> set (dict_values probs). 0 < w"
    by blast
  have k: "dict_keys probs = dict_keys corpus" and v: "length (dict_values probs) = length corpus"
    using transition_model_keys [OF p] by simp_all
  have l: "length (dict_values probs) = length (dict_keys probs)"
    using v k by (metis length_dict_keys)
  have ne: "dict_values probs \<noteq> []"
    using assms(1) v by (cases corpus) auto
  have nn: "\<forall>w \<in> set (dict_values probs). 0 \<le> w"
    using w by (simp add: less_imp_le)
  from choices_inverse_cdf [OF l nn sum_list_pos' [OF ne w] assms(4,5)] p k
  show ?thesis
    by (metis length_dict_keys)
qed

lemma spec_walk_visits:
  assumes "spec_walk corpus d us k m page = Inr visits" and "page \<in> set (dict_keys corpus)"
  shows "length visits = m \<and> set visits \<subseteq> set (dict_keys corpus)"
  using assms
proof (induction m arbitrary: k page visits)
  case 0
  then show ?case by simp
next
  case (Suc m)
  from Suc.prems(1) obtain probs x vs
    where p: "transition_model corpus page d = Inr probs"
      and c: "choices (dict_keys probs) (dict_values probs) (us k) = Inr x"
      and w: "spec_walk corpus d us (Suc k) m x = Inr vs" and v: "visits = page # vs"
    by (auto split: sum.splits)
  have "x \<in> set (dict_keys corpus)"
    using choices_member [OF c] transition_model_keys(1) [OF p] by simp
  from Suc.IH [OF w this] show ?case
    using v Suc.prems(2) by simp
qed

lemma spec_walk_returns:
  assumes "page \<in> set (dict_keys corpus)" and "0 < d" and "d < 1"
  shows "\<exists>visits. spec_walk corpus d us k m page = Inr visits"
  using assms(1)
proof (induction m arbitrary: k page)
  case 0
  then show ?case by simp
next
  case (Suc m)
  from next_page_returns [OF Suc.prems assms(2,3), of "us k"] obtain probs x
    where p: "transition_model corpus page d = Inr probs"
      and c: "choices (dict_keys probs) (dict_values probs) (us k) = Inr x"
    by blast
  have "x \<in> set (dict_keys corpus)"
    using choices_member [OF c] transition_model_keys(1) [OF p] by simp
  from Suc.IH [OF this, of "Suc k"] show ?case
    by (auto simp: p c)
qed

lemma sample_loop_counts:
  assumes "is_dict corpus" and "dict_keys counts = dict_keys corpus"
    and "page \<in> set (dict_keys corpus)"
  shows "sample_loop corpus d us k m page counts
           = (case spec_walk corpus d us k m page of
                Inl e \<Rightarrow> Inl e
              | Inr visits \<Rightarrow>
                  Inr (map (\<lambda>(p, c). (p, c + int (count_list visits p))) counts))"
  using assms(2,3)
proof (induction m arbitrary: k page counts)
  case 0
  then show ?case by simp
next
  case (Suc m)
  from Suc.prems obtain c where c: "getitem counts page = Inr c"
    using getitem_key [of page counts] by auto
  then have mc: "map_of counts page = Some c"
    by (simp add: getitem_map_of)
  show ?case
  proof (cases "transition_model corpus page d")
    case (Inl e)
    then show ?thesis by (simp add: c)
  next
    case (Inr probs)
    note p = this
    show ?thesis
    proof (cases "choices (dict_keys probs) (dict_values probs) (us k)")
      case (Inl e)
      then show ?thesis by (simp add: c p)
    next
      case (Inr x)
      have x: "x \<in> set (dict_keys corpus)"
        using choices_member [OF Inr] transition_model_keys(1) [OF p] by simp
      have dk: "distinct (dict_keys counts)"
        using assms(1) Suc.prems(1) by (simp add: is_dict_def)
      have s: "setitem counts page (c + 1)
                 = map (\<lambda>(p, x). (p, if p = page then c + 1 else x)) counts"
        using setitem_existing [OF dk] Suc.prems by simp
      have k': "dict_keys (setitem counts page (c + 1)) = dict_keys corpus"
        unfolding s using Suc.prems(1) by (simp add: dict_keys_def comp_def case_prod_unfold)
      have upd: "map (\<lambda>(p, c). (p, c + int (count_list vs p))) (setitem counts page (c + 1))
                   = map (\<lambda>(p, c). (p, c + int (count_list (page # vs) p))) counts" for vs
        unfolding s using mc dk
        by (auto simp: dict_keys_def dest!: map_of_SomeD dest: eq_key_imp_eq_value)
      show ?thesis
        using Suc.IH [OF k' x, of "Suc k"]
        by (simp add: c p Inr upd split: sum.splits)
    qed
  qed
qed

lemma sample_pagerank_spec:
  assumes "is_dict corpus" and "corpus \<noteq> []" and "i < length corpus" and "n \<noteq> 0"
  shows "sample_pagerank corpus d n i us = spec_sample_pagerank corpus d n i us"
proof -
  let ?K = "dict_keys corpus"
  have K: "?K \<noteq> []" using assms(2) by (simp add: dict_keys_def)
  have start: "?K ! i \<in> set ?K" using assms(3) by simp
  have "map (\<lambda>(p, c). (p, real_of_int c / real_of_int n))
          (map (\<lambda>(p, c). (p, c + int (count_list vs p))) (map (\<lambda>page. (page, 0)) ?K))
        = table ?K (\<lambda>p. real (count_list vs p) / real_of_int n)" for vs
    by (simp add: table_def)
  then show ?thesis
    using K assms(4) sample_loop_counts [OF assms(1) _ start, of "map (\<lambda>page. (page, 0)) ?K" d us 0 "nat n"]
    by (simp add: sample_pagerank_def spec_sample_pagerank_def choice_def split: sum.splits)
qed

lemma spec_sample_pagerank_sum:
  assumes "is_dict corpus" and "i < length corpus" and "1 \<le> n"
    and "spec_sample_pagerank corpus d n i us = Inr ranks"
  shows "sum_list (dict_values ranks) = 1"
proof -
  let ?K = "dict_keys corpus"
  have start: "?K ! i \<in> set ?K" using assms(2) by simp
  from assms(4) obtain visits where w: "spec_walk corpus d us 0 (nat n) (?K ! i) = Inr visits"
    and r: "ranks = table ?K (\<lambda>p. real (count_list visits p) / real_of_int n)"
    by (auto simp: spec_sample_pagerank_def choice_def split: sum.splits if_splits)
  from spec_walk_visits [OF w start] have l: "length visits = nat n" "set visits \<subseteq> set ?K"
    by simp_all
  have "sum_list (dict_values ranks) = (\<Sum>p\<leftarrow>?K. real (count_list visits p) / real_of_int n)"
    by (simp add: r table_def)
  also have "\<dots> = real (\<Sum>p\<leftarrow>?K. count_list visits p) / real_of_int n"
    by (rule sum_list_divide)
  also have "\<dots> = 1"
    using sum_count_list [OF _ l(2)] assms(1,3) l(1) by (simp add: is_dict_def)
  finally show ?thesis .
qed

section \<open>The sampling estimator in double precision\<close>

text \<open>
  Whatever the weights, a run that returns has visited \<open>n\<close> pages of the corpus, and
  each returned value is the rounded quotient of a visit count by \<open>n\<close>.  Then the walk
  of 22 steps over \<open>corpus0\<close> that the variates \<open>draws0\<close> select.
\<close>

lemma bisect_fl_bounds: "lo \<le> hi \<Longrightarrow> lo \<le> bisect_fl a x lo hi \<and> bisect_fl a x lo hi \<le> hi"
proof (induction a x lo hi rule: bisect_fl.induct)
  case (1 a x lo hi)
  show ?case
  proof (cases "lo < hi")
    case False
    then have "bisect_fl a x lo hi = lo"
      by (subst bisect_fl.simps) simp
    then show ?thesis using "1.prems" by simp
  next
    case True
    let ?mid = "(lo + hi) div 2"
    have m: "lo \<le> ?mid" "?mid < hi" using True by auto
    show ?thesis
    proof (cases "fl_less x (a ! ?mid)")
      case T2: True
      from "1.IH"(1) [OF True T2] m
      have "lo \<le> bisect_fl a x lo ?mid \<and> bisect_fl a x lo ?mid \<le> ?mid"
        by simp
      moreover have "bisect_fl a x lo hi = bisect_fl a x lo ?mid"
        using True T2 by (subst bisect_fl.simps) simp
      ultimately show ?thesis
        using m by simp
    next
      case F2: False
      from "1.IH"(2) [OF True F2] m
      have "?mid + 1 \<le> bisect_fl a x (?mid + 1) hi \<and> bisect_fl a x (?mid + 1) hi \<le> hi"
        by simp
      moreover have "bisect_fl a x lo hi = bisect_fl a x (?mid + 1) hi"
        using True F2 by (subst bisect_fl.simps) simp
      ultimately show ?thesis
        using m by simp
    qed
  qed
qed

lemma choices_fl_member:
  assumes "choices_fl population weights u = Inr x"
  shows "x \<in> set population"
proof -
  let ?n = "length population"
  let ?cum = "accumulate_fl weights"
  let ?r = "bisect_fl ?cum (fl_mul u (fl_add (last ?cum) (Fin 0))) 0 (?n - 1)"
  from assms have n: "length ?cum = ?n" "?cum \<noteq> []" and x: "x = population ! ?r"
    by (auto simp: choices_fl_def split: if_splits)
  from n have "0 < ?n" by auto
  moreover have "?r \<le> ?n - 1"
    using bisect_fl_bounds [of 0 "?n - 1"] by simp
  ultimately have "?r < ?n"
    by arith
  then show ?thesis
    unfolding x by (rule nth_mem)
qed

lemma transition_model_fl_keys:
  assumes "transition_model_fl corpus page d = Inr probs"
  shows "dict_keys probs = dict_keys corpus"
  using assms
  by (auto simp: transition_model_fl_def split: sum.splits if_splits)

lemma setitem_values:
  assumes "distinct (dict_keys d)" and "map_of d k = Some c"
  shows "sum_list (dict_values (setitem d k v)) = sum_list (dict_values d) - c + (v::int)"
    and "dict_keys (setitem d k v) = dict_keys d"
    and "set (dict_values (setitem d k v)) \<subseteq> insert v (set (dict_values d))"
  using assms
proof (induction d)
  case Nil
  {
    case 1 then show ?case by simp
  next
    case 2 then show ?case by simp
  next
    case 3 then show ?case by simp
  }
next
  case (Cons a d)
  obtain p x where a: "a = (p, x)" by (cases a)
  {
    case 1
    show ?case
    proof (cases "p = k")
      case True
      then show ?thesis using "1" a by (simp add: setitem_def dict_values_def)
    next
      case False
      then show ?thesis using "1" a Cons.IH(1) by (simp add: setitem_def dict_values_def)
    qed
  next
    case 2
    show ?case
    proof (cases "p = k")
      case True
      then show ?thesis using "2" a by (simp add: setitem_def)
    next
      case False
      then show ?thesis using "2" a Cons.IH(2) by (simp add: setitem_def)
    qed
  next
    case 3
    show ?case
    proof (cases "p = k")
      case True
      then show ?thesis using "3" a by (auto simp: setitem_def dict_values_def)
    next
      case False
      then show ?thesis using "3" a Cons.IH(3) by (auto simp: setitem_def dict_values_def)
    qed
  }
qed

lemma sample_loop_fl_counts:
  assumes "sample_loop_fl corpus d us k m page counts = Inr counts'"
    and "distinct (dict_keys corpus)" and "dict_keys counts = dict_keys corpus"
    and "page \<in> set (dict_keys corpus)" and "\<forall>c \<in> set (dict_values counts). 0 \<le> c"
  shows "dict_keys counts' = dict_keys corpus \<and>
         sum_list (dict_values counts') = sum_list (dict_values counts) + int m \<and>
         (\<forall>c \<in> set (dict_values counts'). 0 \<le> c)"
  using assms(1,3,4,5)
proof (induction m arbitrary: k page counts)
  case 0
  then show ?case by simp
next
  case (Suc m)
  from Suc.prems(1) obtain c probs x
    where c: "getitem counts page = Inr c"
      and p: "transition_model_fl corpus page d = Inr probs"
      and x: "choices_fl (dict_keys probs) (dict_values probs) (us k) = Inr x"
      and r: "sample_loop_fl corpus d us (Suc k) m x (setitem counts page (c + 1)) = Inr counts'"
    by (auto split: sum.splits)
  have mc: "map_of counts page = Some c"
    using c by (simp add: getitem_map_of)
  have dk: "distinct (dict_keys counts)"
    using assms(2) Suc.prems(2) by simp
  have c0: "0 \<le> c"
    using mc Suc.prems(4) by (auto simp: dict_values_def dest!: map_of_SomeD)
  note s = setitem_values [OF dk mc, of "c + 1"]
  have x': "x \<in> set (dict_keys corpus)"
    using choices_fl_member [OF x] transition_model_fl_keys [OF p] by simp
  have nn: "\<forall>c' \<in> set (dict_values (setitem counts page (c + 1))). 0 \<le> c'"
    using s(3) Suc.prems(4) c0 by auto
  from Suc.IH [OF r _ x' nn] s(1,2) Suc.prems(2) show ?case
    by simp
qed

lemma member_le_sum_list_int:
  "\<forall>c \<in> set cs. 0 \<le> (c::int) \<Longrightarrow> x \<in> set cs \<Longrightarrow> x \<le> sum_list cs"
proof (induction cs)
  case Nil
  then show ?case by simp
next
  case (Cons c cs)
  have "0 \<le> sum_list cs"
    using Cons.prems(1) by (simp add: sum_list_nonneg)
  then show ?case
    using Cons by auto
qed

lemma sum_list_error:
  "(\<And>x. x \<in> set xs \<Longrightarrow> \<bar>f x - g x\<bar> \<le> (b::real)) \<Longrightarrow>
   \<bar>(\<Sum>x\<leftarrow>xs. f x) - (\<Sum>x\<leftarrow>xs. g x)\<bar> \<le> real (length xs) * b"
proof (induction xs)
  case Nil
  then show ?case by simp
next
  case (Cons x xs)
  have "\<bar>f x - g x\<bar> \<le> b"
    using Cons.prems by simp
  moreover have "\<bar>(\<Sum>x\<leftarrow>xs. f x) - (\<Sum>x\<leftarrow>xs. g x)\<bar> \<le> real (length xs) * b"
    using Cons by simp
  ultimately show ?case
    by (simp add: algebra_simps abs_le_iff)
qed

lemma sum_list_real_of_int: "(\<Sum>c\<leftarrow>cs. real_of_int c / n) = real_of_int (sum_list cs) / n"
  by (induction cs) (simp_all add: add_divide_distrib)

lemma sample_pagerank_fl_counts:
  assumes "is_dict corpus" and "corpus \<noteq> []" and "1 \<le> n" and "i < length corpus"
    and "sample_pagerank_fl corpus d n i us = Inr ranks"
  shows "\<exists>counts.
           dict_keys counts = dict_keys corpus \<and> sum_list (dict_values counts) = n \<and>
           ranks = map (\<lambda>(page, count). (page, int_truediv count n)) counts \<and>
           (\<forall>v \<in> set (dict_values ranks). fl_isfinite v) \<and>
           \<bar>(\<Sum>v\<leftarrow>dict_values ranks. fl_real v) - 1\<bar> \<le> real (length corpus) / 2 ^ 53"
proof -
  let ?K = "dict_keys corpus"
  let ?init = "map (\<lambda>page. (page, 0::int)) ?K"
  have start: "?K ! i \<in> set ?K"
    using assms(4) by simp
  from assms(2,3,5) obtain counts
    where l: "sample_loop_fl corpus d us 0 (nat n) (?K ! i) ?init = Inr counts"
      and r: "ranks = map (\<lambda>(page, count). (page, int_truediv count n)) counts"
    by (auto simp: sample_pagerank_fl_def choice_def split: sum.splits if_splits)
  have "dict_keys ?init = ?K" and "\<forall>c \<in> set (dict_values ?init). 0 \<le> c"
    by (simp_all add: dict_values_def comp_def)
  from sample_loop_fl_counts [OF l _ this(1) start this(2)] assms(1,3)
  have k: "dict_keys counts = ?K" and s: "sum_list (dict_values counts) = n"
    and nn: "\<forall>c \<in> set (dict_values counts). 0 \<le> c"
    by (simp_all add: is_dict_def dict_values_def comp_def)
  have unit: "\<exists>q. int_truediv c n = Fin q \<and> \<bar>q - real_of_int c / real_of_int n\<bar> \<le> 1 / 2 ^ 53"
    if "c \<in> set (dict_values counts)" for c
  proof -
    have "0 \<le> c" "c \<le> n"
      using that nn member_le_sum_list_int [OF nn that] s by simp_all
    then have "0 \<le> real_of_int c / real_of_int n" "real_of_int c / real_of_int n \<le> 1"
      using assms(3) by simp_all
    from round_double_unit [OF this] show ?thesis
      by (simp add: int_truediv_def)
  qed
  have v: "dict_values ranks = map (\<lambda>c. int_truediv c n) (dict_values counts)"
    by (simp add: r dict_values_def comp_def case_prod_unfold)
  have fin: "\<forall>v \<in> set (dict_values ranks). fl_isfinite v"
  proof
    fix w assume "w \<in> set (dict_values ranks)"
    then obtain c where "c \<in> set (dict_values counts)" and "w = int_truediv c n"
      unfolding v by auto
    with unit [of c] show "fl_isfinite w"
      by auto
  qed
  have "\<bar>(\<Sum>c\<leftarrow>dict_values counts. fl_real (int_truediv c n))
          - (\<Sum>c\<leftarrow>dict_values counts. real_of_int c / real_of_int n)\<bar>
        \<le> real (length (dict_values counts)) * (1 / 2 ^ 53)"
  proof (rule sum_list_error)
    fix c assume "c \<in> set (dict_values counts)"
    from unit [OF this] show "\<bar>fl_real (int_truediv c n) - real_of_int c / real_of_int n\<bar> \<le> 1 / 2 ^ 53"
      by auto
  qed
  moreover have "(\<Sum>c\<leftarrow>dict_values counts. real_of_int c / real_of_int n) = 1"
    using s assms(3) by (simp add: sum_list_real_of_int)
  moreover have "length (dict_values counts) = length corpus"
    using k by (metis dict_values_def length_dict_keys length_map)
  ultimately have "\<bar>(\<Sum>v\<leftarrow>dict_values ranks. fl_real v) - 1\<bar> \<le> real (length corpus) / 2 ^ 53"
    by (simp add: v comp_def)
  with k s r fin show ?thesis
    by blast
qed

lemma sample_loop_fl_unfold:
  "0 < m \<Longrightarrow>
   sample_loop_fl corpus d us k m current_page counts =
     (case getitem counts current_page of
        Inl e \<Rightarrow> Inl e
      | Inr c \<Rightarrow>
          (case transition_model_fl corpus current_page d of
             Inl e \<Rightarrow> Inl e
           | Inr probs \<Rightarrow>
               (case choices_fl (dict_keys probs) (dict_values probs) (us k) of
                  Inl e \<Rightarrow> Inl e
                | Inr next_page \<Rightarrow>
                    sample_loop_fl corpus d us (Suc k) (m - 1) next_page
                      (setitem counts current_page (c + 1)))))"
  by (cases m) (auto split: sum.splits)

lemma transition_1: "transition_model_fl corpus0 ''1.html'' (Fin (1 / 2)) = Inr probs1"
  by (simp add: transition_model_fl_def getitem_def corpus0_def probs1_def set_eval fl_eval)

lemma transition_2: "transition_model_fl corpus0 ''2.html'' (Fin (1 / 2)) = Inr probs2"
  by (simp add: transition_model_fl_def getitem_def corpus0_def probs2_def set_eval fl_eval)

lemma transition_3: "transition_model_fl corpus0 ''3.html'' (Fin (1 / 2)) = Inr probs3"
  by (simp add: transition_model_fl_def getitem_def corpus0_def probs3_def set_eval fl_eval)

lemma draw_2_mid: "choices_fl (dict_keys probs2) (dict_values probs2) (Fin (1 / 2)) = Inr ''2.html''"
  by (simp add: probs2_def choices_fl_def dict_values_def fl_eval bisect_fl.simps)

lemma draw_2_low: "choices_fl (dict_keys probs2) (dict_values probs2) (Fin (1 / 64)) = Inr ''1.html''"
  by (simp add: probs2_def choices_fl_def dict_values_def fl_eval bisect_fl.simps)

lemma draw_1_high: "choices_fl (dict_keys probs1) (dict_values probs1) (Fin (63 / 64)) = Inr ''3.html''"
  by (simp add: probs1_def choices_fl_def dict_values_def fl_eval bisect_fl.simps)

lemma draw_3_high: "choices_fl (dict_keys probs3) (dict_values probs3) (Fin (63 / 64)) = Inr ''3.html''"
  by (simp add: probs3_def choices_fl_def dict_values_def fl_eval bisect_fl.simps)

lemma sample_walk_fl:
  "sample_loop_fl corpus0 (Fin (1 / 2)) draws0 0 22 ''2.html''
     [(''1.html'', 0), (''2.html'', 0), (''3.html'', 0)]
   = Inr [(''1.html'', 1), (''2.html'', 15), (''3.html'', 6)]"
  by (simp add: sample_loop_fl_unfold transition_1 transition_2 transition_3
      draw_2_mid draw_2_low draw_1_high draw_3_high draws0_def getitem_def setitem_def)

lemma sample_run_fl:
  "sample_pagerank_fl corpus0 (Fin (1 / 2)) 22 1 draws0
   = Inr [(''1.html'', Fin (3275345183542179 / 72057594037927936)),
          (''2.html'', Fin (6141272219141585 / 9007199254740992)),
          (''3.html'', Fin (1228254443828317 / 4503599627370496))]"
  by (simp add: sample_pagerank_fl_def choice_def corpus0_keys sample_walk_fl) (simp add: fl_eval)

section \<open>Claims about the sampling estimator\<close>

text \<open>
  C4.  For a non-empty graph, a damping factor \<open>d\<close> in \<open>(0, 1)\<close> and a sample count
  \<open>n \<ge> 1\<close>, \<^verbatim>\<open>sample_pagerank\<close> starts at the page that the start index selects (the
  indices below \<open>N\<close> correspond one to one to the pages, so a uniform index is a uniform
  page), makes exactly \<open>n\<close> steps, each of which records a visit to the current page and
  then draws the next page by weighted choice from the transition model of the current
  page, and returns for every page its visit count divided by \<open>n\<close>.  The weighted choice
  takes the page whose interval of cumulative probability contains the variate \<open>u\<close>
  (scaled by the total), an interval as long as the probability of that page.
\<close>

theorem sample_pagerank_walk:
  assumes "is_dict corpus" and "corpus \<noteq> []" and "0 < d" and "d < 1"
    and "1 \<le> n" and "i < length corpus"
  shows "bij_betw (\<lambda>i. dict_keys corpus ! i) {..<length corpus} (set (dict_keys corpus))
         \<and> sample_pagerank corpus d n i us = spec_sample_pagerank corpus d n i us
         \<and> (\<exists>visits.
               spec_walk corpus d us 0 (nat n) (dict_keys corpus ! i) = Inr visits \<and>
               length visits = nat n \<and>
               sample_pagerank corpus d n i us
                 = Inr (table (dict_keys corpus)
                     (\<lambda>p. real (count_list visits p) / real_of_int n)))
         \<and> (\<forall>page u. page \<in> set (dict_keys corpus) \<and> 0 \<le> u \<and> u < 1 \<longrightarrow>
               (\<exists>probs j.
                  transition_model corpus page d = Inr probs \<and> j < length corpus \<and>
                  choices (dict_keys probs) (dict_values probs) u = Inr (dict_keys corpus ! j) \<and>
                  sum_list (take j (dict_values probs)) \<le> u * sum_list (dict_values probs) \<and>
                  u * sum_list (dict_values probs) < sum_list (take (Suc j) (dict_values probs))))"
proof -
  let ?K = "dict_keys corpus"
  have start: "?K ! i \<in> set ?K"
    using assms(6) by simp
  have b: "bij_betw (\<lambda>i. ?K ! i) {..<length corpus} (set ?K)"
    using assms(1) by (intro bij_betw_nth) (simp_all add: is_dict_def)
  have e: "sample_pagerank corpus d n i us = spec_sample_pagerank corpus d n i us"
    using assms(5) by (intro sample_pagerank_spec [OF assms(1,2,6)]) simp
  from spec_walk_returns [OF start assms(3,4), of us 0 "nat n"] obtain visits
    where w: "spec_walk corpus d us 0 (nat n) (?K ! i) = Inr visits"
    by blast
  have l: "length visits = nat n"
    using spec_walk_visits [OF w start] by simp
  have s: "spec_sample_pagerank corpus d n i us
          = Inr (table ?K (\<lambda>p. real (count_list visits p) / real_of_int n))"
    using assms(2) w by (simp add: spec_sample_pagerank_def choice_def)
  have c: "\<forall>page u. page \<in> set ?K \<and> 0 \<le> u \<and> u < 1 \<longrightarrow>
               (\<exists>probs j.
                  transition_model corpus page d = Inr probs \<and> j < length corpus \<and>
                  choices (dict_keys probs) (dict_values probs) u = Inr (?K ! j) \<and>
                  sum_list (take j (dict_values probs)) \<le> u * sum_list (dict_values probs) \<and>
                  u * sum_list (dict_values probs) < sum_list (take (Suc j) (dict_values probs)))"
    using next_page_inverse_cdf [OF _ assms(3,4)] by blast
  from b e w l s c show ?thesis
    unfolding e by blast
qed

theorem sample_pagerank_walk_witness:
  "is_dict corpus0 \<and> corpus0 \<noteq> [] \<and> (0::real) < 85 / 100 \<and> (85 / 100 :: real) < 1
   \<and> (1::int) \<le> 3 \<and> (1::nat) < length corpus0
   \<and> ''2.html'' \<in> set (dict_keys corpus0) \<and> (0::real) \<le> 1 / 2 \<and> (1 / 2 :: real) < 1
   \<and> bij_betw (\<lambda>i. dict_keys corpus0 ! i) {..<length corpus0} (set (dict_keys corpus0))
   \<and> sample_pagerank corpus0 (85 / 100) 3 1 (\<lambda>k. 1 / 2)
        = spec_sample_pagerank corpus0 (85 / 100) 3 1 (\<lambda>k. 1 / 2)
   \<and> (\<exists>visits.
         spec_walk corpus0 (85 / 100) (\<lambda>k. 1 / 2) 0 (nat 3) (dict_keys corpus0 ! 1) = Inr visits \<and>
         length visits = nat 3 \<and>
         sample_pagerank corpus0 (85 / 100) 3 1 (\<lambda>k. 1 / 2)
           = Inr (table (dict_keys corpus0) (\<lambda>p. real (count_list visits p) / real_of_int 3)))
   \<and> (\<exists>probs j.
         transition_model corpus0 ''2.html'' (85 / 100) = Inr probs \<and> j < length corpus0 \<and>
         choices (dict_keys probs) (dict_values probs) (1 / 2) = Inr (dict_keys corpus0 ! j) \<and>
         sum_list (take j (dict_values probs)) \<le> 1 / 2 * sum_list (dict_values probs) \<and>
         1 / 2 * sum_list (dict_values probs) < sum_list (take (Suc j) (dict_values probs)))"
proof -
  have h3: "(0::real) < 85 / 100" and h4: "(85 / 100 :: real) < 1" and h5: "(1::int) \<le> 3"
    by simp_all
  have h6: "(1::nat) < length corpus0"
    by (simp add: corpus0_def)
  have h7: "''2.html'' \<in> set (dict_keys corpus0)"
    by (simp add: corpus0_keys)
  have h8: "(0::real) \<le> 1 / 2" and h9: "(1 / 2 :: real) < 1"
    by simp_all
  from sample_pagerank_walk [OF corpus0_dict corpus0_nonempty h3 h4 h5 h6, of "\<lambda>k. 1 / 2"]
    corpus0_dict corpus0_nonempty h3 h4 h5 h6 h7 h8 h9
  show ?thesis
    by blast
qed

text \<open>
  C6, as stated, for the floats of the program: the values of the returned rank table
  sum to exactly 1.  They do not always: on \<open>corpus0\<close> with damping factor \<open>1 / 2\<close>, 22
  samples, start at \<^verbatim>\<open>2.html\<close> and the variates \<open>draws0\<close> the visit counts are 1, 15 and 6,
  and the doubles nearest to \<open>1 / 22\<close>, \<open>15 / 22\<close> and \<open>6 / 22\<close> sum neither to 1 as real
  numbers nor to \<open>1.0\<close> when added as floats from the integer 0, the way \<^verbatim>\<open>sum\<close> adds.
\<close>

theorem sample_pagerank_values_sum_counterexample:
  "sample_pagerank_fl corpus0 (Fin (1 / 2)) 22 1 draws0
     = Inr [(''1.html'', Fin (3275345183542179 / 72057594037927936)),
            (''2.html'', Fin (6141272219141585 / 9007199254740992)),
            (''3.html'', Fin (1228254443828317 / 4503599627370496))]
   \<and> 3275345183542179 / 72057594037927936 + 6141272219141585 / 9007199254740992
       + 1228254443828317 / 4503599627370496 \<noteq> (1::real)
   \<and> fl_add (fl_add (fl_add (Fin 0) (Fin (3275345183542179 / 72057594037927936)))
          (Fin (6141272219141585 / 9007199254740992)))
        (Fin (1228254443828317 / 4503599627370496)) \<noteq> Fin 1"
proof -
  have "fl_add (fl_add (fl_add (Fin 0) (Fin (3275345183542179 / 72057594037927936)))
          (Fin (6141272219141585 / 9007199254740992)))
        (Fin (1228254443828317 / 4503599627370496)) = Fin (9007199254740991 / 9007199254740992)"
    by (simp add: fl_eval)
  then show ?thesis
    using sample_run_fl by simp
qed

text \<open>
  C6, amended.  For a non-empty graph, any damping factor and a sample count \<open>n \<ge> 1\<close>, a
  rank table returned by \<^verbatim>\<open>sample_pagerank\<close> consists of integer visit counts that add up
  to \<open>n\<close>, each divided by \<open>n\<close>.  With exact division the values sum to exactly 1 (and a
  table is returned when the damping factor lies in \<open>(0, 1)\<close>); with the float division
  of the program every value is a finite double, and their sum differs from 1 by at
  most \<open>N / 2 ^ 53\<close> for \<open>N\<close> pages.
\<close>

theorem sample_pagerank_values_sum:
  assumes "is_dict corpus" and "corpus \<noteq> []" and "1 \<le> n" and "i < length corpus"
  shows "(\<forall>ranks. sample_pagerank corpus d n i us = Inr ranks \<longrightarrow>
            (\<exists>counts.
               dict_keys counts = dict_keys corpus \<and> sum_list (dict_values counts) = n \<and>
               ranks = map (\<lambda>(page, count). (page, real_of_int count / real_of_int n)) counts)
            \<and> sum_list (dict_values ranks) = 1)
         \<and> (0 < d \<and> d < 1 \<longrightarrow> (\<exists>ranks. sample_pagerank corpus d n i us = Inr ranks))
         \<and> (\<forall>ranks. sample_pagerank_fl corpus d' n i us' = Inr ranks \<longrightarrow>
              (\<exists>counts.
                 dict_keys counts = dict_keys corpus \<and> sum_list (dict_values counts) = n \<and>
                 ranks = map (\<lambda>(page, count). (page, int_truediv count n)) counts \<and>
                 (\<forall>v \<in> set (dict_values ranks). fl_isfinite v) \<and>
                 \<bar>(\<Sum>v\<leftarrow>dict_values ranks. fl_real v) - 1\<bar> \<le> real (length corpus) / 2 ^ 53))"
proof -
  let ?K = "dict_keys corpus"
  have start: "?K ! i \<in> set ?K"
    using assms(4) by simp
  have e: "sample_pagerank corpus d n i us = spec_sample_pagerank corpus d n i us"
    using assms(3) by (intro sample_pagerank_spec [OF assms(1,2,4)]) simp
  have "(\<exists>counts.
           dict_keys counts = ?K \<and> sum_list (dict_values counts) = n \<and>
           ranks = map (\<lambda>(page, count). (page, real_of_int count / real_of_int n)) counts)
        \<and> sum_list (dict_values ranks) = 1"
    if r: "sample_pagerank corpus d n i us = Inr ranks" for ranks
  proof
    from r obtain visits where w: "spec_walk corpus d us 0 (nat n) (?K ! i) = Inr visits"
      and t: "ranks = table ?K (\<lambda>p. real (count_list visits p) / real_of_int n)"
      unfolding e by (auto simp: spec_sample_pagerank_def choice_def split: sum.splits if_splits)
    from spec_walk_visits [OF w start] have l: "length visits = nat n" "set visits \<subseteq> set ?K"
      by simp_all
    let ?counts = "table ?K (\<lambda>p. int (count_list visits p))"
    have "sum_list (dict_values ?counts) = int (\<Sum>p\<leftarrow>?K. count_list visits p)"
      by (simp add: table_def sum_list_int)
    also have "\<dots> = n"
      using sum_count_list [OF _ l(2)] assms(1,3) l(1) by (simp add: is_dict_def)
    finally have "sum_list (dict_values ?counts) = n" .
    moreover have "ranks = map (\<lambda>(page, count). (page, real_of_int count / real_of_int n)) ?counts"
      by (simp add: t table_def)
    ultimately show "\<exists>counts.
           dict_keys counts = ?K \<and> sum_list (dict_values counts) = n \<and>
           ranks = map (\<lambda>(page, count). (page, real_of_int count / real_of_int n)) counts"
      by (intro exI [of _ ?counts]) simp
    show "sum_list (dict_values ranks) = 1"
      using r spec_sample_pagerank_sum [OF assms(1,4,3), of d us ranks] by (simp add: e)
  qed
  moreover have "\<exists>ranks. sample_pagerank corpus d n i us = Inr ranks" if "0 < d \<and> d < 1"
  proof -
    from that have "\<exists>visits. spec_walk corpus d us 0 (nat n) (?K ! i) = Inr visits"
      using spec_walk_returns [OF start] by blast
    then show ?thesis
      using assms(2) by (auto simp: e spec_sample_pagerank_def choice_def)
  qed
  moreover have "\<exists>counts.
         dict_keys counts = ?K \<and> sum_list (dict_values counts) = n \<and>
         ranks = map (\<lambda>(page, count). (page, int_truediv count n)) counts \<and>
         (\<forall>v \<in> set (dict_values ranks). fl_isfinite v) \<and>
         \<bar>(\<Sum>v\<leftarrow>dict_values ranks. fl_real v) - 1\<bar> \<le> real (length corpus) / 2 ^ 53"
    if "sample_pagerank_fl corpus d' n i us' = Inr ranks" for ranks
    using sample_pagerank_fl_counts [OF assms that] .
  ultimately show ?thesis by blast
qed

theorem sample_pagerank_values_sum_witness:
  "is_dict corpus0 \<and> corpus0 \<noteq> [] \<and> (1::int) \<le> 22 \<and> (1::nat) < length corpus0
   \<and> (0::real) < 1 / 2 \<and> (1 / 2 :: real) < 1
   \<and> (\<exists>ranks counts.
         sample_pagerank corpus0 (1 / 2) 22 1 (\<lambda>k. 1 / 2) = Inr ranks \<and>
         dict_keys counts = dict_keys corpus0 \<and> sum_list (dict_values counts) = 22 \<and>
         ranks = map (\<lambda>(page, count). (page, real_of_int count / real_of_int 22)) counts \<and>
         sum_list (dict_values ranks) = 1)
   \<and> (\<exists>ranks counts.
         sample_pagerank_fl corpus0 (Fin (1 / 2)) 22 1 draws0 = Inr ranks \<and>
         dict_keys counts = dict_keys corpus0 \<and> sum_list (dict_values counts) = 22 \<and>
         ranks = map (\<lambda>(page, count). (page, int_truediv count 22)) counts \<and>
         (\<forall>v \<in> set (dict_values ranks). fl_isfinite v) \<and>
         \<bar>(\<Sum>v\<leftarrow>dict_values ranks. fl_real v) - 1\<bar> \<le> real (length corpus0) / 2 ^ 53)"
proof -
  have h3: "(1::int) \<le> 22"
    by simp
  have h4: "(1::nat) < length corpus0"
    by (simp add: corpus0_def)
  have h5: "(0::real) < 1 / 2" and h6: "(1 / 2 :: real) < 1"
    by simp_all
  note t = sample_pagerank_values_sum [OF corpus0_dict corpus0_nonempty h3 h4,
      of "1 / 2" "\<lambda>k. 1 / 2" "Fin (1 / 2)" draws0]
  from t h5 h6 obtain ranks where r: "sample_pagerank corpus0 (1 / 2) 22 1 (\<lambda>k. 1 / 2) = Inr ranks"
    by blast
  with t have a: "\<exists>ranks counts.
         sample_pagerank corpus0 (1 / 2) 22 1 (\<lambda>k. 1 / 2) = Inr ranks \<and>
         dict_keys counts = dict_keys corpus0 \<and> sum_list (dict_values counts) = 22 \<and>
         ranks = map (\<lambda>(page, count). (page, real_of_int count / real_of_int 22)) counts \<and>
         sum_list (dict_values ranks) = 1"
    by blast
  have "\<exists>ranks. sample_pagerank_fl corpus0 (Fin (1 / 2)) 22 1 draws0 = Inr ranks"
    by (rule exI) (rule sample_run_fl)
  then obtain ranks' where r': "sample_pagerank_fl corpus0 (Fin (1 / 2)) 22 1 draws0 = Inr ranks'"
    by blast
  with t have b: "\<exists>ranks counts.
         sample_pagerank_fl corpus0 (Fin (1 / 2)) 22 1 draws0 = Inr ranks \<and>
         dict_keys counts = dict_keys corpus0 \<and> sum_list (dict_values counts) = 22 \<and>
         ranks = map (\<lambda>(page, count). (page, int_truediv count 22)) counts \<and>
         (\<forall>v \<in> set (dict_values ranks). fl_isfinite v) \<and>
         \<bar>(\<Sum>v\<leftarrow>dict_values ranks. fl_real v) - 1\<bar> \<le> real (length corpus0) / 2 ^ 53"
    by blast
  from a b corpus0_dict corpus0_nonempty h3 h4 h5 h6 show ?thesis
    by (intro conjI)
qed

section \<open>Invalid inputs\<close>





end
